theory Spec2Isabelle
  imports Main "HOL-Library.Signed_Division" "HOL-Library.AList"
begin

section \<open>The remote blob reader of fs/remote/blob.go\<close>

text \<open>
  The embedding follows \<^verbatim>\<open>fs/remote/blob.go\<close> function by function.

  \<^item> Offsets and sizes are \<^verbatim>\<open>int64\<close> in the source. They are modelled as \<^typ>\<open>int\<close>, and
    the arithmetic on them wraps around as in Go: \<open>i64\<close> is applied to the result of every
    quotient and of every expression made of sums, differences and products in \<^verbatim>\<open>floor\<close>,
    \<^verbatim>\<open>ceil\<close>, \<^verbatim>\<open>region.size\<close>, \<^verbatim>\<open>ReadAt\<close>, \<^verbatim>\<open>walkChunks\<close>, \<^verbatim>\<open>prepareChunksForRead\<close>,
    \<^verbatim>\<open>cacheAt\<close> and \<^verbatim>\<open>Cache\<close> (wrapping such an expression once gives what wrapping each
    of its steps gives, \<open>i64_add\<close>, \<open>i64_diff\<close>, \<open>i64_mult\<close>). Two places are not wrapped:
    \<^verbatim>\<open>b.size - offset\<close> in \<^verbatim>\<open>adjustBufferSize\<close>, which lies between \<open>0\<close> and the size on
    the path of \<^verbatim>\<open>ReadAt\<close> that reaches it with a non-negative offset, and the stream
    positions of a \<^verbatim>\<open>bytesWriter\<close>, which count the bytes that were written to it (they
    wrap only after \<open>2 ^ 63\<close> bytes). Go's \<^verbatim>\<open>/\<close> and \<^verbatim>\<open>%\<close> truncate towards zero; they are
    \<open>sdiv\<close> and \<open>smod\<close>, not HOL's \<open>div\<close> and \<open>mod\<close>.
  \<^item> A byte slice is a \<^typ>\<open>char list\<close> (a \<^typ>\<open>char\<close> is a byte). The destination buffer of
    \<^verbatim>\<open>ReadAt\<close> is shared with the \<^verbatim>\<open>bytesWriter\<close>s that alias sub-slices of it: the buffer is
    threaded through the model as an explicit store and a writer holds the window
    (start and length) of the store it aliases.
  \<^item> \<^verbatim>\<open>time.Now()\<close> is an input of the operations that read the clock.
  \<^item> An \<^verbatim>\<open>error\<close> is a value of the datatype \<open>error\<close>; a run-time panic is the error
    \<open>Panic\<close>. A loop that may run forever returns \<^typ>\<open>'a option\<close>, \<open>None\<close> meaning that it
    does not return.
  \<^item> The mutexes only guard single field reads and writes and are left out; what the
    \<^verbatim>\<open>singleflight\<close> group does at each call of \<^verbatim>\<open>Do\<close> is an input (\<open>flight\<close>).
\<close>

subsection \<open>Regions and chunk arithmetic\<close>

type_synonym byte = char

text \<open>
  The values of \<^verbatim>\<open>int64\<close> and the wrap-around of its arithmetic: \<open>i64 x\<close> is the value of
  \<^verbatim>\<open>int64\<close> that differs from \<open>x\<close> by a multiple of \<open>2 ^ 64\<close>.
\<close>

definition int64 :: "int \<Rightarrow> bool" where
  "int64 x \<longleftrightarrow> - (2 ^ 63) \<le> x \<and> x < 2 ^ 63"

definition i64 :: "int \<Rightarrow> int" where
  "i64 x = (x + 2 ^ 63) mod 2 ^ 64 - 2 ^ 63"

datatype region = Region (reg_b: int) (reg_e: int)

text \<open>
  Modelled from the spec: \<^verbatim>\<open>region.size()\<close>, declared in util.go, which is not among the
  sources. The spec gives \<^verbatim>\<open>size() = e - b + 1\<close>, on \<^verbatim>\<open>int64\<close>.
\<close>

definition region_size :: "region \<Rightarrow> int" where
  "region_size r = i64 (reg_e r - reg_b r + 1)"

definition floor :: "int \<Rightarrow> int \<Rightarrow> int" where
  "floor n unit = i64 (i64 (n sdiv unit) * unit)"

definition ceil :: "int \<Rightarrow> int \<Rightarrow> int" where
  "ceil n unit = i64 ((i64 (n sdiv unit) + 1) * unit)"

definition positive :: "int \<Rightarrow> int" where
  "positive n = (if n < 0 then 0 else n)"

subsection \<open>Errors\<close>

datatype error =
    BlobClosed  \<comment> \<open>"blob is already closed"\<close>
  | SizeMismatch int int  \<comment> \<open>"invalid size of new blob %d; want %d"\<close>
  | MisalignedRegion int int  \<comment> \<open>"region (%d, %d) must be aligned by chunk size"\<close>
  | IncompleteRead int int  \<comment> \<open>"incomplete read from cache: read %d bytes, expected %d bytes"\<close>
  | MissingRegion "region list"  \<comment> \<open>"failed to fetch region %v"\<close>
  | MultipartError error  \<comment> \<open>"failed to read multipart resp: %w"\<close>
  | ChunksError error  \<comment> \<open>"failed to get chunks: %w"\<close>
  | WriteChunkError error  \<comment> \<open>"failed to write chunk data: %w"\<close>
  | CacheMiss  \<comment> \<open>the error of \<^verbatim>\<open>cache.Get\<close> on an absent entry\<close>
  | NegativeOffset  \<comment> \<open>the error of a reader's \<^verbatim>\<open>ReadAt\<close> at a negative offset\<close>
  | EOF  \<comment> \<open>\<^verbatim>\<open>io.EOF\<close>\<close>
  | Transport string  \<comment> \<open>an error of the fetcher, the resolver or the cache handle\<close>
  | Panic string  \<comment> \<open>a run-time panic\<close>

text \<open>
  A panic is not an \<^verbatim>\<open>error\<close> value of the source: no \<^verbatim>\<open>err != nil\<close> test sees it and no
  \<^verbatim>\<open>fmt.Errorf\<close> wraps it. Where the source wraps or handles an error, the model lets a panic
  pass as it is.
\<close>

definition isPanic :: "error \<Rightarrow> bool" where
  "isPanic err = (case err of Panic s \<Rightarrow> True | _ \<Rightarrow> False)"

definition wrap :: "(error \<Rightarrow> error) \<Rightarrow> error \<Rightarrow> error" where
  "wrap f err = (if isPanic err then err else f err)"

subsection \<open>The collaborators: fetcher, multipart reader, cache, region set\<close>

text \<open>
  Modelled from the spec: the multipart reader that \<^verbatim>\<open>fetcher.fetch\<close> returns (its
  implementation is not among the sources). It yields \<^verbatim>\<open>(region, reader)\<close> pairs in server
  order and its terminal transition is \<^verbatim>\<open>io.EOF\<close>; an item \<open>Inl err\<close> is a failing \<^verbatim>\<open>Next()\<close>.
  The body of a part is the list of the byte slices its successive \<^verbatim>\<open>Read\<close> calls return.
\<close>

type_synonym part = "region \<times> byte list list"

type_synonym multipartReader = "(error + part) list"

text \<open>
  Modelled from the spec: the \<^verbatim>\<open>fetcher\<close> interface (the HTTP fetcher is not among the
  sources), with the three operations the blob calls: \<^verbatim>\<open>fetch(ctx, regions, allowMultiRange)\<close>,
  \<^verbatim>\<open>check()\<close> and \<^verbatim>\<open>genID(region)\<close>.
\<close>

record fetcher =
  f_fetch :: "region list \<Rightarrow> error + multipartReader"
  f_check :: "error option"
  f_genID :: "region \<Rightarrow> string"

text \<open>
  Modelled from the spec: the cache (package cache is not among the sources), a store of
  named entries. \<^verbatim>\<open>Get(id)\<close> returns a reader over previously committed content or fails;
  the reader's \<^verbatim>\<open>ReadAt(dst, off)\<close> delivers exactly \<^verbatim>\<open>len(dst)\<close> bytes or reports \<^verbatim>\<open>EOF\<close>
  with the bytes it has. \<^verbatim>\<open>Add(id)\<close> returns a writer whose \<^verbatim>\<open>Commit()\<close> publishes what was
  written and whose \<^verbatim>\<open>Abort()\<close> discards it. The writer itself never fails (the in-memory
  cache of the test harness).
\<close>

type_synonym blobCache = "string \<Rightarrow> byte list option"

definition cache_Get :: "blobCache \<Rightarrow> string \<Rightarrow> error + byte list" where
  "cache_Get c ident = (case c ident of None \<Rightarrow> Inl CacheMiss | Some content \<Rightarrow> Inr content)"

definition reader_ReadAt :: "byte list \<Rightarrow> nat \<Rightarrow> int \<Rightarrow> byte list \<times> error option" where
  "reader_ReadAt content n off =
     (if off < 0 then ([], Some NegativeOffset)
      else if int (length content) \<le> off then ([], Some EOF)
      else (let got = take n (drop (nat off) content)
            in (got, if length got < n then Some EOF else None)))"

definition cache_Commit :: "blobCache \<Rightarrow> string \<Rightarrow> byte list \<Rightarrow> blobCache" where
  "cache_Commit c ident content = c(ident \<mapsto> content)"

text \<open>
  Modelled from the spec: the region set (util.go is not among the sources), a growing
  list of disjoint regions; \<^verbatim>\<open>add(region)\<close> merges adjacent and overlapping regions and
  \<^verbatim>\<open>totalSize()\<close> sums the sizes.
\<close>

fun regionSet_add :: "region \<Rightarrow> region list \<Rightarrow> region list" where
  "regionSet_add r [] = [r]"
| "regionSet_add r (l # ls) =
     (if reg_e r + 1 < reg_b l then r # l # ls
      else if reg_e l + 1 < reg_b r then l # regionSet_add r ls
      else regionSet_add (Region (min (reg_b l) (reg_b r)) (max (reg_e l) (reg_e r))) ls)"

definition totalSize :: "region list \<Rightarrow> int" where
  "totalSize rs = sum_list (map region_size rs)"

subsection \<open>The blob\<close>

record blob =
  b_fetcher :: fetcher
  b_size :: int
  b_chunkSize :: int
  b_prefetchChunkSize :: int
  b_cache :: blobCache
  b_lastCheck :: int
  b_checkInterval :: int
  b_fetchedRegionSet :: "region list"
  b_closed :: bool

text \<open>\<^verbatim>\<open>Close\<close>; \<open>cacheClose\<close> is what \<^verbatim>\<open>b.cache.Close()\<close> returns.\<close>

definition Close :: "error option \<Rightarrow> blob \<Rightarrow> error option \<times> blob" where
  "Close cacheClose b =
     (if b_closed b then (None, b) else (cacheClose, b\<lparr>b_closed := True\<rparr>))"

definition isClosed :: "blob \<Rightarrow> bool" where
  "isClosed b = b_closed b"

text \<open>
  \<^verbatim>\<open>Refresh\<close>; \<open>resolved\<close> is what \<^verbatim>\<open>b.resolver.resolveFetcher(ctx, hosts, refspec, desc)\<close>
  returns and \<open>now\<close> the reading of the clock.
\<close>

definition Refresh :: "error + fetcher \<times> int \<Rightarrow> int \<Rightarrow> blob \<Rightarrow> error option \<times> blob" where
  "Refresh resolved now b =
     (if isClosed b then (Some BlobClosed, b)
      else case resolved of
        Inl err \<Rightarrow> (Some err, b)
      | Inr (f, newSize) \<Rightarrow>
          if newSize \<noteq> b_size b then (Some (SizeMismatch newSize (b_size b)), b)
          else (None, b\<lparr>b_fetcher := f, b_lastCheck := now\<rparr>))"

text \<open>
  \<^verbatim>\<open>Check\<close>; the third component of the result tells whether \<^verbatim>\<open>fr.check()\<close> was called.
\<close>

definition Check :: "int \<Rightarrow> blob \<Rightarrow> error option \<times> blob \<times> bool" where
  "Check now b =
     (if isClosed b then (Some BlobClosed, b, False)
      else let lastCheck = b_lastCheck b in
        if now - lastCheck < b_checkInterval b then (None, b, False)
        else let fr = b_fetcher b; err = f_check fr in
          if err = None then (err, b\<lparr>b_lastCheck := now\<rparr>, True) else (err, b, True))"

definition Size :: "blob \<Rightarrow> int" where
  "Size b = b_size b"

definition FetchedSize :: "blob \<Rightarrow> int" where
  "FetchedSize b = totalSize (b_fetchedRegionSet b)"

definition getFetcher :: "blob \<Rightarrow> fetcher" where
  "getFetcher b = b_fetcher b"

definition adjustBufferSize :: "blob \<Rightarrow> byte list \<Rightarrow> int \<Rightarrow> int" where
  "adjustBufferSize b p offset =
     (let remain = b_size b - offset in
      if int (length p) \<ge> remain
      then (let remain' = (if remain < 0 then 0 else remain) in int (length (take (nat remain') p)))
      else int (length p))"

subsection \<open>walkChunks\<close>

text \<open>
  The loop of \<^verbatim>\<open>walkChunks\<close>. The callback mutates what it captured, so it is a state
  transformer that also returns its error. \<^verbatim>\<open>i + b.chunkSize - 1\<close>, \<^verbatim>\<open>b.size - 1\<close> and
  \<^verbatim>\<open>i += b.chunkSize\<close> wrap around. With a negative chunk size the loop need not end.
\<close>

partial_function (option) walkLoop ::
  "int \<Rightarrow> int \<Rightarrow> int \<Rightarrow> (region \<Rightarrow> 's \<Rightarrow> error option \<times> 's) \<Rightarrow> int \<Rightarrow> 's \<Rightarrow> (error option \<times> 's) option"
where
  "walkLoop sz cs e walkFn i st =
     (if i \<le> e \<and> i < sz then
        (let reg = Region i (i64 (i + cs - 1));
             reg = (if reg_e reg \<ge> sz then Region (reg_b reg) (i64 (sz - 1)) else reg)
         in case walkFn reg st of
              (Some err, st') \<Rightarrow> Some (Some err, st')
            | (None, st') \<Rightarrow> walkLoop sz cs e walkFn (i64 (i + cs)) st')
      else Some (None, st))"

declare walkLoop.simps [code]

definition walkChunks ::
  "blob \<Rightarrow> region \<Rightarrow> (region \<Rightarrow> 's \<Rightarrow> error option \<times> 's) \<Rightarrow> 's \<Rightarrow> (error option \<times> 's) option"
where
  "walkChunks b allRegion walkFn st =
     (if b_chunkSize b = 0 then Some (Some (Panic ''integer divide by zero''), st)
      else if reg_b allRegion smod b_chunkSize b \<noteq> 0
      then Some (Some (MisalignedRegion (reg_b allRegion) (reg_e allRegion)), st)
      else walkLoop (b_size b) (b_chunkSize b) (reg_e allRegion) walkFn (reg_b allRegion) st)"

subsection \<open>Writers\<close>

text \<open>
  An \<^verbatim>\<open>io.Writer\<close> of the read path. A \<^verbatim>\<open>bytesWriter\<close> holds \<^verbatim>\<open>dest\<close>, a sub-slice of the
  caller's buffer: here the window \<open>[bw_base, bw_base + bw_len)\<close> of the store.
  \<open>NilWriter\<close> is the nil interface that a lookup of an absent key of \<^verbatim>\<open>allData\<close> yields.
\<close>

datatype writer =
    BytesWriter (bw_base: nat) (bw_len: nat) (bw_destOff: int) (bw_current: int)
  | Discard
  | NilWriter

definition newBytesWriter :: "nat \<Rightarrow> nat \<Rightarrow> int \<Rightarrow> writer" where
  "newBytesWriter base len destOff = BytesWriter base len destOff 0"

text \<open>
  Go's \<^verbatim>\<open>copy(store[lo:hi], src)\<close>: it copies \<^verbatim>\<open>min(hi - lo, len(src))\<close> bytes to the store
  from index \<open>lo\<close> on and leaves the other bytes as they are.
\<close>

definition copy_slice :: "byte list \<Rightarrow> nat \<Rightarrow> nat \<Rightarrow> byte list \<Rightarrow> byte list" where
  "copy_slice store lo hi src =
     map (\<lambda>j. if lo \<le> j \<and> j < hi \<and> j - lo < length src then src ! (j - lo) else store ! j)
       [0..<length store]"

definition bytesWriter_Write ::
  "nat \<Rightarrow> nat \<Rightarrow> int \<Rightarrow> int \<Rightarrow> byte list \<Rightarrow> byte list \<Rightarrow> error option \<times> writer \<times> byte list"
where
  "bytesWriter_Write base len destOff current p store =
     (let destBase = positive (current - destOff);
          pBegin = positive (destOff - current);
          pEnd = positive (destOff + int len - current);
          bw = BytesWriter base len destOff (current + int (length p))
      in if destBase > int len then (None, bw, store)
         else if pBegin \<ge> int (length p) then (None, bw, store)
         else (let pEnd = (if pEnd > int (length p) then int (length p) else pEnd)
               in if pBegin > pEnd then (Some (Panic ''slice bounds out of range''), bw, store)
                  else (None, bw,
                        copy_slice store (base + nat destBase) (base + len)
                          (take (nat (pEnd - pBegin)) (drop (nat pBegin) p)))))"

definition writer_Write :: "writer \<Rightarrow> byte list \<Rightarrow> byte list \<Rightarrow> error option \<times> writer \<times> byte list" where
  "writer_Write w p store =
     (case w of
        BytesWriter base len destOff current \<Rightarrow> bytesWriter_Write base len destOff current p store
      | Discard \<Rightarrow> (None, Discard, store)
      | NilWriter \<Rightarrow> (Some (Panic ''nil pointer dereference''), NilWriter, store))"

text \<open>
  \<^verbatim>\<open>io.CopyN(dst, src, n)\<close>. The reader is the list of the slices its \<^verbatim>\<open>Read\<close> calls return,
  the limit cuts the last one, an empty read writes nothing, and a reader that ends before
  \<open>n\<close> bytes gives \<^verbatim>\<open>io.EOF\<close>. \<open>wr\<close> is the \<^verbatim>\<open>Write\<close> of the destination.
\<close>

function copyN ::
  "(byte list \<Rightarrow> 'd \<Rightarrow> error option \<times> 'd) \<Rightarrow> byte list list \<Rightarrow> nat \<Rightarrow> 'd
     \<Rightarrow> error option \<times> byte list list \<times> 'd"
where
  "copyN wr rd n dst =
     (if n = 0 then (None, rd, dst)
      else case rd of
        [] \<Rightarrow> (Some EOF, [], dst)
      | pc # rest \<Rightarrow>
          (let d = take n pc;
               rd' = (if length pc \<le> n then rest else drop n pc # rest)
           in if d = [] then copyN wr rd' n dst
              else case wr d dst of
                     (Some err, dst') \<Rightarrow> (Some err, rd', dst')
                   | (None, dst') \<Rightarrow> copyN wr rd' (n - length d) dst'))"
  by pat_completeness auto
termination
  by (relation "measure (\<lambda>(wr, rd, n, dst). length rd + n)") auto

declare copyN.simps [simp del]

text \<open>\<^verbatim>\<open>io.MultiWriter(cw, w)\<close> over the cache writer's buffer and, when present, a writer.\<close>

definition multiWriter_Write ::
  "byte list \<Rightarrow> byte list \<times> writer option \<times> byte list
     \<Rightarrow> error option \<times> (byte list \<times> writer option \<times> byte list)"
where
  "multiWriter_Write p = (\<lambda>(cw, w, store).
     case w of
       None \<Rightarrow> (None, (cw @ p, None, store))
     | Some w0 \<Rightarrow>
         (case writer_Write w0 p store of (err, w1, store') \<Rightarrow> (err, (cw @ p, Some w1, store'))))"

definition single_Write ::
  "byte list \<Rightarrow> writer \<times> byte list \<Rightarrow> error option \<times> (writer \<times> byte list)"
where
  "single_Write p = (\<lambda>(w, store).
     case writer_Write w p store of (err, w1, store') \<Rightarrow> (err, (w1, store')))"

text \<open>
  The slices that \<^verbatim>\<open>io.Copy\<close> reads from an in-memory reader: its buffer holds 32 KiB.
\<close>

fun chop :: "nat \<Rightarrow> byte list \<Rightarrow> byte list list" where
  "chop n xs = (if n = 0 \<or> xs = [] then [] else take n xs # chop n (drop n xs))"

declare chop.simps [simp del]

definition sectionReader :: "byte list \<Rightarrow> nat \<Rightarrow> nat \<Rightarrow> byte list list" where
  "sectionReader content off n = chop 32768 (take n (drop off content))"

subsection \<open>The read path\<close>

text \<open>
  The map \<^verbatim>\<open>allData\<close> from regions to writers and the map \<^verbatim>\<open>fetched\<close> are association
  lists; a \<^verbatim>\<open>range\<close> over one visits the keys in the order of insertion.
\<close>

type_synonym allData = "(region \<times> writer) list"

definition allData_get :: "allData \<Rightarrow> region \<Rightarrow> writer" where
  "allData_get ad r = (case map_of ad r of None \<Rightarrow> NilWriter | Some w \<Rightarrow> w)"

text \<open>A write through \<^verbatim>\<open>allData[chunk]\<close> mutates the writer that the map points to.\<close>

definition allData_mutate :: "allData \<Rightarrow> region \<Rightarrow> writer \<Rightarrow> allData" where
  "allData_mutate ad r w = (if map_of ad r = None then ad else AList.update r w ad)"

definition readFromCache ::
  "blob \<Rightarrow> region \<Rightarrow> nat \<Rightarrow> nat \<Rightarrow> int \<Rightarrow> fetcher \<Rightarrow> byte list \<Rightarrow> error option \<times> byte list"
where
  "readFromCache b chunk base n offset fr store =
     (case cache_Get (b_cache b) (f_genID fr chunk) of
        Inl err \<Rightarrow> (Some err, store)
      | Inr content \<Rightarrow>
          (case reader_ReadAt content n offset of
             (got, err) \<Rightarrow>
               (let store' = copy_slice store base (base + n) got in
                if err \<noteq> None \<and> err \<noteq> Some EOF then (err, store')
                else if length got \<noteq> n
                then (Some (IncompleteRead (int (length got)) (int n)), store')
                else (None, store'))))"

text \<open>
  The callback of \<^verbatim>\<open>prepareChunksForRead\<close>. The slice expression
  \<^verbatim>\<open>p[base:base+expectedSize]\<close> panics unless \<open>0 \<le> base \<le> high \<le> len(p)\<close>, \<open>high\<close> being the
  wrapped sum (the buffer's capacity is taken to be its length); the slice has \<open>high - base\<close>
  bytes.
\<close>

definition prepareChunk ::
  "blob \<Rightarrow> int \<Rightarrow> fetcher \<Rightarrow> region \<Rightarrow> byte list \<times> allData \<Rightarrow> error option \<times> (byte list \<times> allData)"
where
  "prepareChunk b offset fr chunk = (\<lambda>(p, allData).
     let base = positive (i64 (reg_b chunk - offset));
         lowerUnread = positive (i64 (offset - reg_b chunk));
         upperUnread = positive (i64 (reg_e chunk + 1 - (offset + int (length p))));
         expectedSize = i64 (region_size chunk - upperUnread - lowerUnread);
         high = i64 (base + expectedSize)
     in if \<not> (0 \<le> base \<and> base \<le> high \<and> high \<le> int (length p))
        then (Some (Panic ''slice bounds out of range''), (p, allData))
        else case readFromCache b chunk (nat base) (nat (high - base)) lowerUnread fr p of
               (None, p') \<Rightarrow> (None, (p', allData))
             | (Some err, p') \<Rightarrow>
                 (None, (p', AList.update chunk
                               (newBytesWriter (nat base) (nat (high - base)) lowerUnread) allData)))"

definition prepareChunksForRead ::
  "blob \<Rightarrow> region \<Rightarrow> int \<Rightarrow> fetcher \<Rightarrow> byte list \<times> allData
     \<Rightarrow> (error option \<times> (byte list \<times> allData)) option"
where
  "prepareChunksForRead b allRegion offset fr st = walkChunks b allRegion (prepareChunk b offset fr) st"

text \<open>
  What a fetch works on: the blob, \<^verbatim>\<open>allData\<close>, \<^verbatim>\<open>fetched\<close>, the caller's buffer that the
  writers alias, and the body of the part being read.
\<close>

record fetchState =
  fs_blob :: blob
  fs_allData :: allData
  fs_fetched :: "(region \<times> bool) list"
  fs_buf :: "byte list"
  fs_reader :: "byte list list"

definition cacheChunkData :: "fetcher \<Rightarrow> region \<Rightarrow> fetchState \<Rightarrow> error option \<times> fetchState" where
  "cacheChunkData fr chunk st =
     (let ident = f_genID fr chunk;
          w = (if map_of (fs_fetched st) chunk \<noteq> None
               then Some (allData_get (fs_allData st) chunk) else None)
      in case copyN multiWriter_Write (fs_reader st) (nat (region_size chunk)) ([], w, fs_buf st) of
           (err, rd', (cw, w', store')) \<Rightarrow>
             (let st1 = st\<lparr>fs_reader := rd', fs_buf := store',
                          fs_allData := (case w' of None \<Rightarrow> fs_allData st
                                         | Some w1 \<Rightarrow> allData_mutate (fs_allData st) chunk w1)\<rparr>
              in case err of
                   Some e \<Rightarrow> (Some (wrap WriteChunkError e), st1)
                 | None \<Rightarrow>
                     (None, st1\<lparr>fs_blob := (fs_blob st)
                                   \<lparr>b_cache := cache_Commit (b_cache (fs_blob st)) ident cw,
                                    b_fetchedRegionSet :=
                                      regionSet_add chunk (b_fetchedRegionSet (fs_blob st))\<rparr>,
                                fs_fetched := AList.update chunk True (fs_fetched st)\<rparr>)))"

text \<open>The loop of \<^verbatim>\<open>fetchRegions\<close> over the parts of the response.\<close>

fun fetchParts :: "fetcher \<Rightarrow> multipartReader \<Rightarrow> fetchState \<Rightarrow> (error option \<times> fetchState) option" where
  "fetchParts fr [] st = Some (None, st)"
| "fetchParts fr (Inl err # mr) st = Some (Some (wrap MultipartError err), st)"
| "fetchParts fr (Inr (reg, p) # mr) st =
     (case walkChunks (fs_blob st) reg (cacheChunkData fr) (st\<lparr>fs_reader := p\<rparr>) of
        None \<Rightarrow> None
      | Some (Some err, st') \<Rightarrow> Some (Some (wrap ChunksError err), st')
      | Some (None, st') \<Rightarrow> fetchParts fr mr st')"

definition fetchRegions :: "int \<Rightarrow> fetchState \<Rightarrow> (error option \<times> fetchState) option" where
  "fetchRegions now st =
     (if fs_allData st = [] then Some (None, st)
      else let fr = getFetcher (fs_blob st);
               req = map fst (fs_allData st);
               st1 = st\<lparr>fs_fetched := fold (\<lambda>reg f. AList.update reg False f) req (fs_fetched st)\<rparr>
           in case f_fetch fr req of
                Inl err \<Rightarrow> Some (Some err, st1)
              | Inr mr \<Rightarrow>
                  (case fetchParts fr mr (st1\<lparr>fs_blob := (fs_blob st1)\<lparr>b_lastCheck := now\<rparr>\<rparr>) of
                     None \<Rightarrow> None
                   | Some (Some err, st2) \<Rightarrow> Some (Some err, st2)
                   | Some (None, st2) \<Rightarrow>
                       (let unfetched = map fst (filter (\<lambda>(c, v). \<not> v) (fs_fetched st2))
                        in if unfetched \<noteq> [] then Some (Some (MissingRegion unfetched), st2)
                           else Some (None, st2))))"

text \<open>The callback of \<^verbatim>\<open>copyFetchedChunks\<close>.\<close>

definition copyFetchedChunk :: "region \<Rightarrow> fetchState \<Rightarrow> error option \<times> fetchState" where
  "copyFetchedChunk chunk st =
     (let fr = getFetcher (fs_blob st) in
      case cache_Get (b_cache (fs_blob st)) (f_genID fr chunk) of
        Inl err \<Rightarrow> (Some err, st)
      | Inr r \<Rightarrow>
          (let n = nat (region_size chunk) in
           case copyN single_Write (sectionReader r 0 n) n
                  (allData_get (fs_allData st) chunk, fs_buf st) of
             (err, rd', (w', store')) \<Rightarrow>
               (err, st\<lparr>fs_allData := allData_mutate (fs_allData st) chunk w', fs_buf := store'\<rparr>)))"

definition copyFetchedChunks :: "region \<Rightarrow> fetchState \<Rightarrow> (error option \<times> fetchState) option" where
  "copyFetchedChunks reg st = walkChunks (fs_blob st) reg copyFetchedChunk st"

fun handleSharedLoop :: "region list \<Rightarrow> fetchState \<Rightarrow> (error option \<times> fetchState) option" where
  "handleSharedLoop [] st = Some (None, st)"
| "handleSharedLoop (reg # regs) st =
     (if map_of (fs_fetched st) reg \<noteq> None then handleSharedLoop regs st
      else case copyFetchedChunks reg st of
             None \<Rightarrow> None
           | Some (Some err, st') \<Rightarrow> Some (Some err, st')
           | Some (None, st') \<Rightarrow> handleSharedLoop regs st')"

definition handleSharedFetch :: "fetchState \<Rightarrow> (error option \<times> fetchState) option" where
  "handleSharedFetch st = handleSharedLoop (map fst (fs_allData st)) st"

text \<open>
  What \<^verbatim>\<open>b.fetchedRegionGroup.Do(key, fn)\<close> does at one call. \<open>Leader shared now\<close>: this
  caller runs \<^verbatim>\<open>fn\<close> itself at time \<open>now\<close>, and \<open>shared\<close> tells whether other callers waited
  for the result. \<open>Follower err c\<close>: another caller is already running under the key; this
  caller blocks, receives the other's result \<open>err\<close> (with \<^verbatim>\<open>shared = true\<close>) and finds the
  cache in the state \<open>c\<close>.
\<close>

datatype flight = Leader bool int | Follower "error option" blobCache

text \<open>
  The result \<^verbatim>\<open>(err, shared)\<close> of \<^verbatim>\<open>b.fetchedRegionGroup.Do(key, fn)\<close>, where \<^verbatim>\<open>fn\<close> calls
  \<^verbatim>\<open>fetchRegions\<close>, and the state it leaves.
\<close>

definition singleflight_Do :: "flight \<Rightarrow> fetchState \<Rightarrow> (error option \<times> bool \<times> fetchState) option" where
  "singleflight_Do f st =
     (case f of
        Leader shared now \<Rightarrow>
          (case fetchRegions now st of
             None \<Rightarrow> None
           | Some (err, st') \<Rightarrow> Some (err, shared, st'))
      | Follower err c \<Rightarrow> Some (err, True, st\<lparr>fs_blob := (fs_blob st)\<lparr>b_cache := c\<rparr>\<rparr>))"

text \<open>
  \<^verbatim>\<open>fetchRange\<close>. Each call with a non-empty \<^verbatim>\<open>allData\<close> asks the single-flight group once,
  so it consumes one \<open>flight\<close>; when the list is used up the model does not say what \<^verbatim>\<open>Do\<close>
  does and the result is \<open>None\<close>. The last component of the result counts the retries,
  the recursive calls of \<^verbatim>\<open>fetchRange\<close>.
\<close>

fun fetchRange :: "flight list \<Rightarrow> fetchState \<Rightarrow> (error option \<times> fetchState \<times> nat) option" where
  "fetchRange [] st = (if fs_allData st = [] then Some (None, st, 0) else None)"
| "fetchRange (f # fl) st =
     (if fs_allData st = [] then Some (None, st, 0)
      else case singleflight_Do f (st\<lparr>fs_fetched := []\<rparr>) of
          None \<Rightarrow> None
        | Some (err, shared, st1) \<Rightarrow>
            if err = None \<and> shared then
              (case handleSharedFetch st1 of
                 None \<Rightarrow> None
               | Some (Some e, st2) \<Rightarrow>
                   if isPanic e then Some (Some e, st2, 0)
                   else (case fetchRange fl st2 of
                           None \<Rightarrow> None
                         | Some (err', st3, k) \<Rightarrow> Some (err', st3, Suc k))
               | Some (None, st2) \<Rightarrow> Some (err, st2, 0))
            else Some (err, st1, 0))"

definition ReadAt ::
  "flight list \<Rightarrow> byte list \<Rightarrow> int \<Rightarrow> blob \<Rightarrow> ((error + int) \<times> byte list \<times> blob) option"
where
  "ReadAt fl p offset b =
     (if isClosed b then Some (Inl BlobClosed, p, b)
      else if length p = 0 \<or> offset > b_size b then Some (Inr 0, p, b)
      else if b_chunkSize b = 0 then Some (Inl (Panic ''integer divide by zero''), p, b)
      else let allRegion = Region (floor offset (b_chunkSize b))
                                  (i64 (ceil (i64 (offset + int (length p) - 1)) (b_chunkSize b) - 1));
               fr = getFetcher b
           in case prepareChunksForRead b allRegion offset fr (p, []) of
                None \<Rightarrow> None
              | Some (Some err, (p', allData)) \<Rightarrow> Some (Inl err, p', b)
              | Some (None, (p', allData)) \<Rightarrow>
                  (case fetchRange fl \<lparr>fs_blob = b, fs_allData = allData, fs_fetched = [],
                                       fs_buf = p', fs_reader = []\<rparr> of
                     None \<Rightarrow> None
                   | Some (Some err, st, k) \<Rightarrow> Some (Inl err, fs_buf st, fs_blob st)
                   | Some (None, st, k) \<Rightarrow>
                       Some (Inr (adjustBufferSize (fs_blob st) (fs_buf st) offset),
                             fs_buf st, fs_blob st)))"

subsection \<open>The prefetch path\<close>

definition cacheAt ::
  "flight list \<Rightarrow> int \<Rightarrow> int \<Rightarrow> fetcher \<Rightarrow> blob \<Rightarrow> (error option \<times> blob) option"
where
  "cacheAt fl offset sz fr b =
     (if b_chunkSize b = 0 then Some (Some (Panic ''integer divide by zero''), b)
      else let fetchReg = Region (floor offset (b_chunkSize b))
                                 (i64 (ceil (i64 (offset + sz - 1)) (b_chunkSize b) - 1))
           in case walkChunks b fetchReg
                     (\<lambda>reg discard.
                        case cache_Get (b_cache b) (f_genID fr reg) of
                          Inr r \<Rightarrow> (None, discard)
                        | Inl err \<Rightarrow> (None, AList.update reg Discard discard)) [] of
                None \<Rightarrow> None
              | Some (Some err, discard) \<Rightarrow> Some (Some err, b)
              | Some (None, discard) \<Rightarrow>
                  (case fetchRange fl \<lparr>fs_blob = b, fs_allData = discard, fs_fetched = [],
                                       fs_buf = [], fs_reader = []\<rparr> of
                     None \<Rightarrow> None
                   | Some (err, st, k) \<Rightarrow> Some (err, fs_blob st)))"

text \<open>
  The windows of \<^verbatim>\<open>Cache\<close>. The source runs them in an \<^verbatim>\<open>errgroup\<close>; the model runs them
  one after the other, each with the flights of its own, and keeps the first error as
  \<^verbatim>\<open>eg.Wait()\<close> does; a panic ends the run.
\<close>

partial_function (option) cacheLoop ::
  "flight list list \<Rightarrow> fetcher \<Rightarrow> int \<Rightarrow> int \<Rightarrow> int \<Rightarrow> error option \<Rightarrow> blob
     \<Rightarrow> (error option \<times> blob) option"
where
  "cacheLoop fls fr fetchSize endOff i first b =
     (if i < endOff then
        (let l = (if i64 (i + fetchSize) > endOff then i64 (endOff - i) else fetchSize) in
         case cacheAt (case fls of [] \<Rightarrow> [] | fl # _ \<Rightarrow> fl) i l fr b of
           None \<Rightarrow> None
         | Some (err, b') \<Rightarrow>
             if (case err of Some e \<Rightarrow> isPanic e | None \<Rightarrow> False) then Some (err, b')
             else cacheLoop (tl fls) fr fetchSize endOff (i64 (i + fetchSize))
                    (if first = None then err else first) b')
      else Some (first, b))"

declare cacheLoop.simps [code]

definition Cache :: "flight list list \<Rightarrow> int \<Rightarrow> int \<Rightarrow> blob \<Rightarrow> (error option \<times> blob) option" where
  "Cache fls offset sz b =
     (if isClosed b then Some (Some BlobClosed, b)
      else let fr = b_fetcher b in
        if b_prefetchChunkSize b \<le> b_chunkSize b
        then cacheAt (case fls of [] \<Rightarrow> [] | fl # _ \<Rightarrow> fl) offset sz fr b
        else if b_chunkSize b = 0 then Some (Some (Panic ''integer divide by zero''), b)
        else let fetchSize = i64 (b_chunkSize b * i64 (b_prefetchChunkSize b sdiv b_chunkSize b));
                 endOff = i64 (offset + sz)
             in cacheLoop fls fr fetchSize endOff offset None b)"

subsection \<open>The test harness\<close>

text \<open>
  The blob of the repository's tests (\<^verbatim>\<open>makeTestBlob\<close>, \<^verbatim>\<open>sampleData1\<close>, chunk size 3): a
  fetcher that answers every requested region with the bytes of the contents at it, one
  part per region (a range with a negative start cannot be parsed and is refused), a
  fetcher that fails, an empty cache, a zero check interval.
\<close>

definition sampleData1 :: "byte list" where
  "sampleData1 = ''0123456789''"

definition sampleChunkSize :: int where
  "sampleChunkSize = 3"

definition region_bytes :: "byte list \<Rightarrow> region \<Rightarrow> byte list" where
  "region_bytes contents r = take (nat (region_size r)) (drop (nat (reg_b r)) contents)"

definition testID :: "region \<Rightarrow> string" where
  "testID r = [char_of (reg_b r), CHR ''-'', char_of (reg_e r)]"

definition testFetcher :: "byte list \<Rightarrow> fetcher" where
  "testFetcher contents =
     \<lparr>f_fetch = (\<lambda>req. if \<exists>r\<in>set req. reg_b r < 0 then Inl (Transport ''bad range'')
                       else Inr (map (\<lambda>r. Inr (r, [region_bytes contents r])) req)),
      f_check = None,
      f_genID = testID\<rparr>"

definition failFetcher :: fetcher where
  "failFetcher =
     \<lparr>f_fetch = (\<lambda>req. Inl (Transport ''connection refused'')),
      f_check = Some (Transport ''connection refused''),
      f_genID = testID\<rparr>"

definition makeTestBlob :: "fetcher \<Rightarrow> int \<Rightarrow> int \<Rightarrow> int \<Rightarrow> blob" where
  "makeTestBlob fr sz chunkSize prefetchChunkSize =
     \<lparr>b_fetcher = fr, b_size = sz, b_chunkSize = chunkSize,
      b_prefetchChunkSize = prefetchChunkSize, b_cache = Map.empty, b_lastCheck = 0,
      b_checkInterval = 0, b_fetchedRegionSet = [], b_closed = False\<rparr>"

text \<open>The blob of \<^verbatim>\<open>TestCheckInterval\<close>: last checked at time 100, check interval 60.\<close>

definition checkBlob :: "fetcher \<Rightarrow> blob" where
  "checkBlob fr = (makeTestBlob fr 10 3 0)\<lparr>b_lastCheck := 100, b_checkInterval := 60\<rparr>"

subsection \<open>What the spec says of walkChunks\<close>

text \<open>
  The sub-regions of the spec's words: the \<open>k\<close>-th one starts at \<open>r.b + k * c\<close> and ends at
  \<open>min (r.b + (k + 1) * c - 1) (s - 1)\<close>, for \<open>k = 0, 1, \<dots>\<close> as long as the start does not
  pass \<open>min r.e (s - 1)\<close>.
\<close>

definition spec_chunk :: "int \<Rightarrow> int \<Rightarrow> region \<Rightarrow> nat \<Rightarrow> region" where
  "spec_chunk c s r k = Region (reg_b r + int k * c) (min (reg_b r + (int k + 1) * c - 1) (s - 1))"

definition spec_chunk_count :: "int \<Rightarrow> int \<Rightarrow> region \<Rightarrow> nat" where
  "spec_chunk_count c s r =
     (if reg_b r \<le> min (reg_e r) (s - 1)
      then nat ((min (reg_e r) (s - 1) - reg_b r) div c + 1) else 0)"

definition spec_chunks :: "int \<Rightarrow> int \<Rightarrow> region \<Rightarrow> region list" where
  "spec_chunks c s r = map (spec_chunk c s r) [0..<spec_chunk_count c s r]"

text \<open>Calling a callback on the regions of a list in order, up to its first error.\<close>

fun walk_list ::
  "(region \<Rightarrow> 's \<Rightarrow> error option \<times> 's) \<Rightarrow> region list \<Rightarrow> 's \<Rightarrow> error option \<times> 's"
where
  "walk_list walkFn [] st = (None, st)"
| "walk_list walkFn (reg # regs) st =
     (case walkFn reg st of
        (Some err, st') \<Rightarrow> (Some err, st')
      | (None, st') \<Rightarrow> walk_list walkFn regs st')"

subsection \<open>Predicates of the proofs\<close>

text \<open>
  What no step of a fetch changes: the length of the caller's buffer and the immutable
  fields of the blob.
\<close>

definition same_frame :: "blob \<Rightarrow> nat \<Rightarrow> fetchState \<Rightarrow> bool" where
  "same_frame b len st \<longleftrightarrow>
     length (fs_buf st) = len \<and> b_size (fs_blob st) = b_size b
     \<and> b_chunkSize (fs_blob st) = b_chunkSize b \<and> b_fetcher (fs_blob st) = b_fetcher b
     \<and> b_closed (fs_blob st) = b_closed b"

text \<open>
  A caller of \<^verbatim>\<open>fetchRange\<close> that misses the first chunk of the test blob, and a flight in
  which it waits for another caller's successful fetch and then finds the cache without the
  chunk (the entry was evicted in between).
\<close>

definition retryState :: fetchState where
  "retryState =
     \<lparr>fs_blob = makeTestBlob (testFetcher sampleData1) 10 3 0,
      fs_allData = [(Region 0 2, newBytesWriter 0 3 0)],
      fs_fetched = [], fs_buf = ''xxx'', fs_reader = []\<rparr>"

definition evicted :: flight where
  "evicted = Follower None Map.empty"

text \<open>
  The chunks that \<^verbatim>\<open>ReadAt\<close> walks for a buffer of length \<open>len\<close> at \<open>offset\<close>, and the test
  that the slice expression \<^verbatim>\<open>p[base:base+expectedSize]\<close> of \<^verbatim>\<open>prepareChunksForRead\<close> is in
  bounds for a chunk.
\<close>

definition read_region :: "int \<Rightarrow> int \<Rightarrow> int \<Rightarrow> region" where
  "read_region c offset len = Region (floor offset c) (i64 (ceil (i64 (offset + len - 1)) c - 1))"

definition read_chunks :: "int \<Rightarrow> int \<Rightarrow> int \<Rightarrow> int \<Rightarrow> region list" where
  "read_chunks c s offset len = spec_chunks c s (read_region c offset len)"

definition chunk_in_bounds :: "int \<Rightarrow> int \<Rightarrow> region \<Rightarrow> bool" where
  "chunk_in_bounds offset len chunk \<longleftrightarrow>
     (let base = positive (i64 (reg_b chunk - offset));
          lowerUnread = positive (i64 (offset - reg_b chunk));
          upperUnread = positive (i64 (reg_e chunk + 1 - (offset + len)));
          expectedSize = i64 (region_size chunk - upperUnread - lowerUnread)
      in 0 \<le> base \<and> 0 \<le> expectedSize \<and> base + expectedSize \<le> len)"

subsection \<open>Predicates of the read path\<close>

text \<open>
  What a sequence of writes leaves in the store. A \<^verbatim>\<open>bytesWriter\<close> whose stream position is
  \<open>cur\<close> and that receives the bytes \<open>d\<close> puts the byte of stream position \<open>q\<close> at index
  \<open>base + (q - destOff)\<close> of the store when that index lies in its window.
\<close>

definition window_write :: "nat \<Rightarrow> nat \<Rightarrow> int \<Rightarrow> int \<Rightarrow> byte list \<Rightarrow> byte list \<Rightarrow> byte list" where
  "window_write base len destOff cur d store =
     map (\<lambda>j. if base \<le> j \<and> j < base + len \<and> cur \<le> destOff + int (j - base)
                 \<and> destOff + int (j - base) < cur + int (length d)
              then d ! nat (destOff + int (j - base) - cur) else store ! j)
       [0..<length store]"






text \<open>
  The slice \<^verbatim>\<open>p[base:base+expectedSize]\<close> and the offset \<^verbatim>\<open>lowerUnread\<close> that
  \<^verbatim>\<open>prepareChunksForRead\<close> computes for a chunk, the writer it registers for it (at stream
  position \<open>cur\<close>), the indices of the buffer that belong to the chunk, and the facts about
  them that the chunks of a read enjoy.
\<close>

definition chunk_base :: "int \<Rightarrow> region \<Rightarrow> nat" where
  "chunk_base offset chunk = nat (positive (reg_b chunk - offset))"

definition chunk_lower :: "int \<Rightarrow> region \<Rightarrow> int" where
  "chunk_lower offset chunk = positive (offset - reg_b chunk)"

definition chunk_expected :: "int \<Rightarrow> nat \<Rightarrow> region \<Rightarrow> nat" where
  "chunk_expected offset len chunk =
     nat (region_size chunk - positive (reg_e chunk + 1 - (offset + int len)) - chunk_lower offset chunk)"

definition chunk_writer :: "int \<Rightarrow> nat \<Rightarrow> region \<Rightarrow> int \<Rightarrow> writer" where
  "chunk_writer offset len chunk cur =
     BytesWriter (chunk_base offset chunk) (chunk_expected offset len chunk) (chunk_lower offset chunk) cur"

















section \<open>Properties\<close>

subsection \<open>64-bit arithmetic\<close>

lemma i64_id: "int64 x \<Longrightarrow> i64 x = x"
  by (simp add: int64_def i64_def)

lemma int64_i64: "int64 (i64 x)"
proof -
  have "0 \<le> (x + 2 ^ 63) mod (2 ^ 64 :: int)" "(x + 2 ^ 63) mod (2 ^ 64 :: int) < 2 ^ 64"
    by simp_all
  then show ?thesis by (simp add: int64_def i64_def)
qed

lemma i64_cong: "x mod 2 ^ 64 = y mod 2 ^ 64 \<Longrightarrow> i64 x = i64 y"
  unfolding i64_def by (metis mod_add_left_eq)

lemma i64_mod: "i64 x mod 2 ^ 64 = x mod 2 ^ 64"
proof -
  have "i64 x mod 2 ^ 64 = ((x + 2 ^ 63) mod 2 ^ 64 - 2 ^ 63) mod 2 ^ 64" by (simp add: i64_def)
  also have "\<dots> = (x + 2 ^ 63 - 2 ^ 63) mod 2 ^ 64" by (rule mod_diff_left_eq)
  finally show ?thesis by simp
qed

text \<open>
  Wrapping the result of a sum, a difference or a product once is wrapping each step.
\<close>

lemma i64_add: "i64 (i64 a + i64 b) = i64 (a + b)"
  by (intro i64_cong mod_add_cong i64_mod)

lemma i64_diff: "i64 (i64 a - i64 b) = i64 (a - b)"
  by (intro i64_cong mod_diff_cong i64_mod)

lemma i64_mult: "i64 (i64 a * i64 b) = i64 (a * b)"
  by (intro i64_cong mod_mult_cong i64_mod)

subsection \<open>Chunk arithmetic\<close>

lemma sdiv_nonneg: "0 \<le> n \<Longrightarrow> 0 < u \<Longrightarrow> n sdiv u = n div (u::int)"
  by (auto simp add: signed_divide_int_def sgn_if)

lemma sdiv_neg: "n < 0 \<Longrightarrow> 0 < u \<Longrightarrow> n sdiv u = - ((- n) div (u::int))"
  by (auto simp add: signed_divide_int_def sgn_if)

lemma sdiv_mult_self: "0 < u \<Longrightarrow> (k * u) sdiv u = (k::int)"
proof (cases "0 \<le> k")
  case True
  assume u: "0 < u"
  then have "0 \<le> k * u" using True by simp
  then show ?thesis using u by (simp add: sdiv_nonneg)
next
  case False
  assume u: "0 < u"
  then have "k * u < 0" using False by (simp add: mult_less_0_iff)
  then have "(k * u) sdiv u = - ((- (k * u)) div u)" using u by (rule sdiv_neg)
  moreover have "(- (k * u)) div u = - k"
  proof -
    have "u \<noteq> 0" using u by simp
    then have "((- k) * u) div u = - k" by (rule nonzero_mult_div_cancel_right)
    then show ?thesis by (simp only: mult_minus_left)
  qed
  ultimately show ?thesis by simp
qed

text \<open>The quotient and the multiple below it lie between \<open>0\<close> and the dividend.\<close>

lemma sdiv_between:
  assumes "0 < (u::int)"
  shows "0 \<le> n \<Longrightarrow> 0 \<le> n sdiv u \<and> n sdiv u \<le> n \<and> 0 \<le> n sdiv u * u \<and> n sdiv u * u \<le> n"
    and "n < 0 \<Longrightarrow> n \<le> n sdiv u \<and> n sdiv u \<le> 0 \<and> n \<le> n sdiv u * u \<and> n sdiv u * u \<le> 0"
proof -
  have d: "m div u * u + m mod u = m" for m by simp
  have m0: "0 \<le> m mod u" for m using assms by simp
  have q: "m div u \<le> m div u * u" if "0 \<le> m" for m
  proof -
    have "0 \<le> m div u" using that assms by (simp add: pos_imp_zdiv_nonneg_iff)
    then have "m div u * 1 \<le> m div u * u" using assms by (intro mult_left_mono) simp_all
    then show ?thesis by simp
  qed
  have r: "0 \<le> m div u \<and> m div u \<le> m \<and> 0 \<le> m div u * u \<and> m div u * u \<le> m" if "0 \<le> m" for m
  proof -
    have a: "0 \<le> m div u" using that assms by (simp add: pos_imp_zdiv_nonneg_iff)
    then have b: "0 \<le> m div u * u" using assms by simp
    have c: "m div u * u \<le> m" using d [of m] m0 [of m] by linarith
    have "m div u \<le> m" using q [OF that] c by linarith
    then show ?thesis using a b c by simp
  qed
  show "0 \<le> n sdiv u \<and> n sdiv u \<le> n \<and> 0 \<le> n sdiv u * u \<and> n sdiv u * u \<le> n" if "0 \<le> n"
    using r [OF that] that assms by (simp add: sdiv_nonneg)
  show "n \<le> n sdiv u \<and> n sdiv u \<le> 0 \<and> n \<le> n sdiv u * u \<and> n sdiv u * u \<le> 0" if "n < 0"
  proof -
    have n: "0 \<le> - n" using that by simp
    show ?thesis using r [OF n] that assms by (simp add: sdiv_neg)
  qed
qed

lemma int64_sdiv:
  assumes "0 < u" "int64 n"
  shows "int64 (n sdiv u)" and "int64 (n sdiv u * u)"
  using sdiv_between [OF assms(1), of n] assms(2)
  by (cases "0 \<le> n"; simp add: int64_def; linarith)+

lemma floor_eq: "0 < u \<Longrightarrow> int64 n \<Longrightarrow> floor n u = n sdiv u * u"
  by (simp add: floor_def i64_id int64_sdiv)

lemma next_multiple_gt: "0 < u \<Longrightarrow> n + 1 \<le> (n sdiv u + 1) * (u::int)"
proof (cases "0 \<le> n")
  case True
  assume u: "0 < u"
  have "n = n div u * u + n mod u" by simp
  moreover have "n mod u < u" using u by simp
  ultimately have "n < n div u * u + u" by linarith
  then show ?thesis using True u by (simp add: sdiv_nonneg algebra_simps)
next
  case False
  assume u: "0 < u"
  have "- n = (- n) div u * u + (- n) mod u" by simp
  moreover have "0 \<le> (- n) mod u" using u by simp
  ultimately have "(- n) div u * u \<le> - n" by linarith
  then show ?thesis using False u by (simp add: sdiv_neg algebra_simps)
qed

lemma ceil_eq:
  assumes "0 < u" "int64 n" "(n sdiv u + 1) * u < 2 ^ 63"
  shows "ceil n u = (n sdiv u + 1) * u"
proof -
  have "n + 1 \<le> (n sdiv u + 1) * u" using assms(1) by (rule next_multiple_gt)
  then have "int64 ((n sdiv u + 1) * u)" using assms(2,3) by (simp add: int64_def)
  then show ?thesis using assms(1,2) by (simp add: ceil_def i64_id int64_sdiv)
qed





subsection \<open>Close, Check and Refresh\<close>

text \<open>
  C3, as the claim states it, fails: \<^verbatim>\<open>Size\<close> and \<^verbatim>\<open>FetchedSize\<close> return an \<^verbatim>\<open>int64\<close>, have no
  error result and do not look at the closed flag. On the closed test blob \<^verbatim>\<open>Size\<close> returns
  10 and \<^verbatim>\<open>FetchedSize\<close> returns 0.
\<close>

theorem closed_operations_counterexample:
  "Size (snd (Close None (makeTestBlob (testFetcher sampleData1) 10 3 0))) = 10
   \<and> FetchedSize (snd (Close None (makeTestBlob (testFetcher sampleData1) 10 3 0))) = 0"
  by (simp add: Size_def FetchedSize_def Close_def makeTestBlob_def totalSize_def)

text \<open>
  C3, amended. After \<^verbatim>\<open>Close()\<close> has returned (whatever the cache handle answered, and whether
  or not the blob was closed before), every later \<^verbatim>\<open>Check\<close>, \<^verbatim>\<open>ReadAt\<close>, \<^verbatim>\<open>Cache\<close> and \<^verbatim>\<open>Refresh\<close>
  fails with the error \<open>BlobClosed\<close>, for all arguments; \<^verbatim>\<open>Size\<close> and \<^verbatim>\<open>FetchedSize\<close> cannot
  fail and still return the blob's size and the total of the fetched regions.
\<close>

theorem closed_operations:
  "fst (Check now (snd (Close cacheClose b))) = Some BlobClosed
   \<and> map_option fst (ReadAt fl p offset (snd (Close cacheClose b))) = Some (Inl BlobClosed)
   \<and> map_option fst (Cache fls offset sz (snd (Close cacheClose b))) = Some (Some BlobClosed)
   \<and> fst (Refresh resolved now (snd (Close cacheClose b))) = Some BlobClosed
   \<and> Size (snd (Close cacheClose b)) = b_size b
   \<and> FetchedSize (snd (Close cacheClose b)) = totalSize (b_fetchedRegionSet b)"
  by (simp add: Check_def ReadAt_def Cache_def Refresh_def Size_def FetchedSize_def isClosed_def
      Close_def)

text \<open>
  C6. \<^verbatim>\<open>Check\<close> at time \<open>now\<close> calls \<^verbatim>\<open>fr.check()\<close> only when
  \<open>now - lastCheck \<ge> checkInterval\<close>; on an open blob it returns success without probing
  when the interval has not passed, and it probes when it has. \<open>lastCheck\<close> becomes \<open>now\<close>
  exactly when the probe was made and succeeded, and keeps its value otherwise; so after
  a failed probe every later \<^verbatim>\<open>Check\<close> (at a time \<open>now' \<ge> now\<close>) probes again.
\<close>

theorem Check_throttle:
  "case Check now b of (err, b', probed) \<Rightarrow>
     (probed \<longrightarrow> now - b_lastCheck b \<ge> b_checkInterval b)
     \<and> (\<not> b_closed b \<and> now - b_lastCheck b < b_checkInterval b
           \<longrightarrow> err = None \<and> \<not> probed \<and> b' = b)
     \<and> (\<not> b_closed b \<and> now - b_lastCheck b \<ge> b_checkInterval b
           \<longrightarrow> probed \<and> err = f_check (b_fetcher b))
     \<and> b_lastCheck b' = (if probed \<and> err = None then now else b_lastCheck b)
     \<and> (probed \<and> err \<noteq> None \<and> now \<le> now' \<longrightarrow> snd (snd (Check now' b')))"
  by (auto simp add: Check_def isClosed_def Let_def)

theorem Check_throttle_witness:
  "Check 130 (checkBlob failFetcher) = (None, checkBlob failFetcher, False)
   \<and> Check 160 (checkBlob failFetcher)
        = (Some (Transport ''connection refused''), checkBlob failFetcher, True)
   \<and> Check 161 (checkBlob failFetcher)
        = (Some (Transport ''connection refused''), checkBlob failFetcher, True)
   \<and> Check 160 (checkBlob (testFetcher sampleData1))
        = (None, (checkBlob (testFetcher sampleData1))\<lparr>b_lastCheck := 160\<rparr>, True)"
  using Check_throttle [where now = 130 and b = "checkBlob failFetcher" and now' = 131]
    Check_throttle [where now = 160 and b = "checkBlob failFetcher" and now' = 161]
    Check_throttle [where now = 160 and b = "checkBlob (testFetcher sampleData1)" and now' = 161]
  by (simp add: Check_def isClosed_def checkBlob_def makeTestBlob_def failFetcher_def
      testFetcher_def Let_def)

text \<open>
  C7. On an open blob, when the resolver returns a fetcher together with a size that
  differs from the blob's, \<^verbatim>\<open>Refresh\<close> fails with \<open>SizeMismatch\<close> and leaves the blob as it
  was: the fetcher, \<open>lastCheck\<close> and what \<^verbatim>\<open>Size()\<close> returns keep their values.
\<close>

theorem Refresh_size_mismatch:
  "\<not> b_closed b \<Longrightarrow> newSize \<noteq> b_size b \<Longrightarrow>
   (case Refresh (Inr (f, newSize)) now b of (err, b') \<Rightarrow>
      err = Some (SizeMismatch newSize (b_size b)) \<and> b' = b
      \<and> b_fetcher b' = b_fetcher b \<and> b_lastCheck b' = b_lastCheck b \<and> Size b' = Size b)"
  by (simp add: Refresh_def isClosed_def)

theorem Refresh_size_mismatch_witness:
  "\<not> b_closed (makeTestBlob (testFetcher sampleData1) 10 3 0)
   \<and> (9::int) \<noteq> b_size (makeTestBlob (testFetcher sampleData1) 10 3 0)
   \<and> Refresh (Inr (failFetcher, 9)) 50 (makeTestBlob (testFetcher sampleData1) 10 3 0)
       = (Some (SizeMismatch 9 10), makeTestBlob (testFetcher sampleData1) 10 3 0)"
  using Refresh_size_mismatch [where b = "makeTestBlob (testFetcher sampleData1) 10 3 0"
      and newSize = 9 and f = failFetcher and now = 50]
  by (simp add: makeTestBlob_def Refresh_def isClosed_def)

subsection \<open>walkChunks\<close>

lemma count_step:
  assumes "0 < c" "reg_b r \<le> min (reg_e r) (s - 1)"
  shows "spec_chunk_count c s r = Suc (spec_chunk_count c s (Region (reg_b r + c) (reg_e r)))"
proof -
  let ?m = "min (reg_e r) (s - 1)"
  show ?thesis
  proof (cases "reg_b r + c \<le> ?m")
    case True
    have "(?m - (reg_b r + c) + c) div c = (?m - (reg_b r + c)) div c + 1"
      using assms(1) by (intro div_add_self2) simp
    then have "(?m - reg_b r) div c = (?m - (reg_b r + c)) div c + 1" by simp
    moreover have "0 \<le> (?m - (reg_b r + c)) div c" using True assms(1) by (simp add: pos_imp_zdiv_nonneg_iff)
    ultimately show ?thesis using True assms by (simp add: spec_chunk_count_def nat_add_distrib)
  next
    case False
    have "0 \<le> ?m - reg_b r" "?m - reg_b r < c" using False assms(2) by linarith+
    then have "(?m - reg_b r) div c = 0" by (rule div_pos_pos_trivial)
    moreover have "spec_chunk_count c s (Region (reg_b r + c) (reg_e r)) = 0"
      using False by (auto simp add: spec_chunk_count_def)
    ultimately show ?thesis using assms(2) by (simp add: spec_chunk_count_def)
  qed
qed

lemma count_zero:
  assumes "0 < c" "spec_chunk_count c s r = 0"
  shows "\<not> reg_b r \<le> min (reg_e r) (s - 1)"
proof
  assume le: "reg_b r \<le> min (reg_e r) (s - 1)"
  then have "0 \<le> (min (reg_e r) (s - 1) - reg_b r) div c"
    using assms(1) by (simp add: pos_imp_zdiv_nonneg_iff)
  then show False using assms(2) le by (simp add: spec_chunk_count_def)
qed

text \<open>One round of the loop when its sums do not wrap around.\<close>

lemma walk_round:
  assumes "0 < c" "- (2 ^ 63) \<le> i" "i + c < 2 ^ 63" "i < s"
  shows "i64 (i + c - 1) = i + c - 1" and "i64 (i + c) = i + c"
    and "s \<le> i + c - 1 \<Longrightarrow> i64 (s - 1) = s - 1"
  using assms by (simp_all add: i64_id int64_def)

lemma walkLoop_eq:
  assumes c: "0 < c"
  shows "spec_chunk_count c s (Region i e) = n \<Longrightarrow> - (2 ^ 63) \<le> i \<Longrightarrow> i + int n * c < 2 ^ 63 \<Longrightarrow>
         walkLoop s c e walkFn i st = Some (walk_list walkFn (spec_chunks c s (Region i e)) st)"
proof (induction n arbitrary: i st)
  case 0
  then have ncond: "\<not> (i \<le> e \<and> i < s)" using count_zero [OF c, of s "Region i e"] by auto
  have "walkLoop s c e walkFn i st = Some (None, st)"
    by (subst walkLoop.simps) (simp only: ncond if_False)
  then show ?case using 0 by (simp add: spec_chunks_def)
next
  case (Suc n)
  then have le: "i \<le> min e (s - 1)" by (auto simp add: spec_chunk_count_def split: if_splits)
  then have cond: "i \<le> e \<and> i < s" by simp
  have cnt: "spec_chunk_count c s (Region (i + c) e) = n"
    using count_step [OF c, of "Region i e" s] le Suc.prems by simp
  have chunks: "spec_chunks c s (Region i e)
      = Region i (min (i + c - 1) (s - 1)) # spec_chunks c s (Region (i + c) e)"
    using Suc.prems(1) cnt
    by (simp add: spec_chunks_def map_upt_Suc spec_chunk_def algebra_simps del: upt_Suc)
  have nc: "0 \<le> int n * c" using c by simp
  have fit: "i + c < 2 ^ 63" using Suc.prems(3) nc by (simp add: algebra_simps)
  have ilt: "i < s" using cond by simp
  note rd = walk_round [OF c Suc.prems(2) fit ilt]
  have lo: "- (2 ^ 63) \<le> i + c" using Suc.prems(2) c by simp
  have hi: "i + c + int n * c < 2 ^ 63" using Suc.prems(3) by (simp add: algebra_simps)
  note ih = Suc.IH [OF cnt lo hi]
  have regeq: "(if s \<le> reg_e (Region i (i64 (i + c - 1)))
                then Region (reg_b (Region i (i64 (i + c - 1)))) (i64 (s - 1))
                else Region i (i64 (i + c - 1)))
               = Region i (min (i + c - 1) (s - 1))"
    using rd(1,3) by (simp add: min_def)
  have unf: "walkLoop s c e walkFn i st =
      (case walkFn (Region i (min (i + c - 1) (s - 1))) st of
         (Some err, st') \<Rightarrow> Some (Some err, st')
       | (None, st') \<Rightarrow> walkLoop s c e walkFn (i + c) st')"
    apply (subst walkLoop.simps)
    unfolding Let_def regeq rd(2)
    using cond by simp
  show ?case unfolding unf chunks
    by (simp add: ih split: prod.splits option.splits)
qed

lemma walk_list_record: "walk_list (\<lambda>reg l. (None, l @ [reg])) rs l0 = (None, l0 @ rs)"
  by (induction rs arbitrary: l0) auto

lemma le_div_iff_int:
  assumes "0 < (c::int)"
  shows "k \<le> a div c \<longleftrightarrow> k * c \<le> a"
proof
  assume "k \<le> a div c"
  then have "k * c \<le> a div c * c" using assms by (simp add: mult_right_mono)
  moreover have "a = a div c * c + a mod c" by simp
  moreover have "0 \<le> a mod c" using assms by simp
  ultimately show "k * c \<le> a" by linarith
next
  assume "k * c \<le> a"
  then have "(k * c) div c \<le> a div c" using assms by (rule zdiv_mono1)
  then show "k \<le> a div c" using assms by simp
qed

lemma count_less_iff:
  assumes "0 < c"
  shows "k < spec_chunk_count c s r \<longleftrightarrow> reg_b r + int k * c \<le> min (reg_e r) (s - 1)"
proof (cases "reg_b r \<le> min (reg_e r) (s - 1)")
  case True
  let ?m = "min (reg_e r) (s - 1)"
  have nn: "0 \<le> (?m - reg_b r) div c" using True assms by (simp add: pos_imp_zdiv_nonneg_iff)
  have "k < spec_chunk_count c s r \<longleftrightarrow> int k \<le> (?m - reg_b r) div c"
    using True nn by (simp add: spec_chunk_count_def) linarith
  also have "\<dots> \<longleftrightarrow> int k * c \<le> ?m - reg_b r"
    using assms by (rule le_div_iff_int)
  finally show ?thesis by linarith
next
  case False
  have "0 \<le> int k * c" using assms by simp
  then show ?thesis using False by (simp add: spec_chunk_count_def) linarith
qed


lemma spec_chunk_unclamped:
  assumes "0 < c" "Suc k < spec_chunk_count c s r"
  shows "reg_e (spec_chunk c s r k) = reg_b r + (int k + 1) * c - 1"
proof -
  have "reg_b r + int (Suc k) * c \<le> min (reg_e r) (s - 1)"
    using assms count_less_iff [of c "Suc k" s r] by simp
  then have "reg_b r + (int k + 1) * c \<le> s - 1" by (simp add: algebra_simps)
  then show ?thesis by (simp add: spec_chunk_def)
qed

lemma count_bound:
  assumes "0 < c"
  shows "reg_b r + int (spec_chunk_count c s r) * c \<le> max (reg_b r) (min (reg_e r) (s - 1) + c)"
proof (cases "reg_b r \<le> min (reg_e r) (s - 1)")
  case True
  let ?m = "min (reg_e r) (s - 1)"
  have nn: "0 \<le> (?m - reg_b r) div c" using True assms by (simp add: pos_imp_zdiv_nonneg_iff)
  have "(?m - reg_b r) div c * c + (?m - reg_b r) mod c = ?m - reg_b r" by simp
  moreover have "0 \<le> (?m - reg_b r) mod c" using assms by simp
  ultimately have "(?m - reg_b r) div c * c \<le> ?m - reg_b r" by linarith
  moreover have "int (spec_chunk_count c s r) * c = (?m - reg_b r) div c * c + c"
    using True nn by (simp add: spec_chunk_count_def algebra_simps)
  ultimately show ?thesis by linarith
next
  case False
  then show ?thesis by (auto simp add: spec_chunk_count_def)
qed

text \<open>
  C8, as the claim states it, fails. With a blob of \<open>2 ^ 63 - 1\<close> bytes and chunks of \<open>3\<close>,
  in the region \<open>{2 ^ 63 - 2, 2 ^ 63 - 1}\<close>
  the end \<^verbatim>\<open>i + b.chunkSize - 1\<close> of the first chunk wraps around to \<open>- (2 ^ 63)\<close>, which is
  below the size: the callback receives the chunk unclamped (here it stops the walk), where
  the sub-region of the spec is \<open>{2 ^ 63 - 2, 2 ^ 63 - 2}\<close>.
\<close>

theorem walkChunks_counterexample:
  "0 < b_chunkSize (makeTestBlob failFetcher (2 ^ 63 - 1) 3 0)
   \<and> reg_b (Region (2 ^ 63 - 2) (2 ^ 63 - 1)) smod 3 = 0
   \<and> spec_chunks 3 (2 ^ 63 - 1) (Region (2 ^ 63 - 2) (2 ^ 63 - 1))
        = [Region (2 ^ 63 - 2) (2 ^ 63 - 2)]
   \<and> walkChunks (makeTestBlob failFetcher (2 ^ 63 - 1) 3 0) (Region (2 ^ 63 - 2) (2 ^ 63 - 1))
         (\<lambda>reg l. (Some EOF, l @ [reg])) []
        = Some (Some EOF, [Region (2 ^ 63 - 2) (- (2 ^ 63))])"
  by (simp add: makeTestBlob_def walkChunks_def walkLoop.simps signed_modulo_int_def i64_def
      spec_chunks_def spec_chunk_count_def spec_chunk_def)

text \<open>
  C8, amended. For a chunk size \<open>c > 0\<close>, \<^verbatim>\<open>walkChunks(r, fn)\<close> fails with \<open>MisalignedRegion\<close>, without
  calling \<open>fn\<close>, when \<open>r.b % c \<noteq> 0\<close>. Otherwise, provided that the start offsets do not wrap
  around (\<open>r.b + k * c\<close> is below \<open>2 ^ 63\<close> for the number \<open>k\<close> of sub-regions, which holds when
  \<open>min r.e (s - 1) + c\<close> is), it calls \<open>fn\<close> on the sub-regions
  \<open>{r.b + k * c, min (r.b + (k + 1) * c - 1) (s - 1)}\<close> for \<open>k = 0, 1, \<dots>\<close> in this order, up to
  the first error of \<open>fn\<close>, and the \<open>k\<close>-th sub-region is walked exactly when
  \<open>r.b + k * c \<le> min r.e (s - 1)\<close>. With a callback that only records its argument the
  result is the list of these sub-regions, so the walk fails if and only if the region
  is misaligned. Every sub-region but the last ends at \<open>r.b + (k + 1) * c - 1\<close>: only the
  last one can be clamped to \<open>s - 1\<close>.
\<close>

theorem walkChunks_spec:
  assumes "0 < b_chunkSize b"
  shows "(reg_b r smod b_chunkSize b \<noteq> 0 \<longrightarrow>
            walkChunks b r walkFn st = Some (Some (MisalignedRegion (reg_b r) (reg_e r)), st))
         \<and> (reg_b r smod b_chunkSize b = 0 \<and> - (2 ^ 63) \<le> reg_b r
              \<and> reg_b r + int (spec_chunk_count (b_chunkSize b) (b_size b) r) * b_chunkSize b < 2 ^ 63
            \<longrightarrow> walkChunks b r walkFn st
                  = Some (walk_list walkFn (spec_chunks (b_chunkSize b) (b_size b) r) st)
                \<and> walkChunks b r (\<lambda>reg l. (None, l @ [reg])) []
                  = Some (None, spec_chunks (b_chunkSize b) (b_size b) r))
         \<and> (reg_b r < 2 ^ 63 \<and> min (reg_e r) (b_size b - 1) + b_chunkSize b < 2 ^ 63
            \<longrightarrow> reg_b r + int (spec_chunk_count (b_chunkSize b) (b_size b) r) * b_chunkSize b < 2 ^ 63)
         \<and> (k < length (spec_chunks (b_chunkSize b) (b_size b) r)
              \<longleftrightarrow> reg_b r + int k * b_chunkSize b \<le> min (reg_e r) (b_size b - 1))
         \<and> (k < length (spec_chunks (b_chunkSize b) (b_size b) r) \<longrightarrow>
              spec_chunks (b_chunkSize b) (b_size b) r ! k
                = Region (reg_b r + int k * b_chunkSize b)
                    (min (reg_b r + (int k + 1) * b_chunkSize b - 1) (b_size b - 1)))
         \<and> (Suc k < length (spec_chunks (b_chunkSize b) (b_size b) r) \<longrightarrow>
              reg_e (spec_chunks (b_chunkSize b) (b_size b) r ! k)
                = reg_b r + (int k + 1) * b_chunkSize b - 1)"
proof -
  have eq: "walkLoop (b_size b) (b_chunkSize b) (reg_e r) fn (reg_b r) s0
      = Some (walk_list fn (spec_chunks (b_chunkSize b) (b_size b) r) s0)"
    if "- (2 ^ 63) \<le> reg_b r"
      "reg_b r + int (spec_chunk_count (b_chunkSize b) (b_size b) r) * b_chunkSize b < 2 ^ 63"
    for fn :: "region \<Rightarrow> 'b \<Rightarrow> error option \<times> 'b" and s0
    using walkLoop_eq [OF assms refl, where s = "b_size b" and i = "reg_b r" and e = "reg_e r"] that
    by simp
  have len: "length (spec_chunks (b_chunkSize b) (b_size b) r)
      = spec_chunk_count (b_chunkSize b) (b_size b) r"
    by (simp add: spec_chunks_def)
  have nth: "\<And>j. j < spec_chunk_count (b_chunkSize b) (b_size b) r \<Longrightarrow>
      spec_chunks (b_chunkSize b) (b_size b) r ! j = spec_chunk (b_chunkSize b) (b_size b) r j"
    by (simp add: spec_chunks_def)
  have c0: "reg_b r smod b_chunkSize b \<noteq> 0 \<longrightarrow>
            walkChunks b r walkFn st = Some (Some (MisalignedRegion (reg_b r) (reg_e r)), st)"
    using assms by (simp add: walkChunks_def)
  have c1: "reg_b r smod b_chunkSize b = 0 \<and> - (2 ^ 63) \<le> reg_b r
              \<and> reg_b r + int (spec_chunk_count (b_chunkSize b) (b_size b) r) * b_chunkSize b < 2 ^ 63
            \<longrightarrow> walkChunks b r walkFn st
                  = Some (walk_list walkFn (spec_chunks (b_chunkSize b) (b_size b) r) st)
                \<and> walkChunks b r (\<lambda>reg l. (None, l @ [reg])) []
                  = Some (None, spec_chunks (b_chunkSize b) (b_size b) r)"
    using assms by (simp add: walkChunks_def eq walk_list_record)
  have c2: "reg_b r < 2 ^ 63 \<and> min (reg_e r) (b_size b - 1) + b_chunkSize b < 2 ^ 63
            \<longrightarrow> reg_b r + int (spec_chunk_count (b_chunkSize b) (b_size b) r) * b_chunkSize b < 2 ^ 63"
    using count_bound [OF assms, of r "b_size b"] by (simp add: max_def split: if_splits)
  have c3: "k < length (spec_chunks (b_chunkSize b) (b_size b) r)
              \<longleftrightarrow> reg_b r + int k * b_chunkSize b \<le> min (reg_e r) (b_size b - 1)"
    using count_less_iff [OF assms, of k "b_size b" r] by (simp only: len)
  have c4: "k < length (spec_chunks (b_chunkSize b) (b_size b) r) \<longrightarrow>
              spec_chunks (b_chunkSize b) (b_size b) r ! k
                = Region (reg_b r + int k * b_chunkSize b)
                    (min (reg_b r + (int k + 1) * b_chunkSize b - 1) (b_size b - 1))"
    by (simp add: len nth spec_chunk_def)
  have c5: "Suc k < length (spec_chunks (b_chunkSize b) (b_size b) r) \<longrightarrow>
              reg_e (spec_chunks (b_chunkSize b) (b_size b) r ! k)
                = reg_b r + (int k + 1) * b_chunkSize b - 1"
    using spec_chunk_unclamped [OF assms, of k "b_size b" r] by (simp add: len nth)
  show ?thesis using c0 c1 c2 c3 c4 c5 by blast
qed

theorem walkChunks_spec_witness:
  "0 < b_chunkSize (makeTestBlob (testFetcher sampleData1) 10 3 0)
   \<and> reg_b (Region 0 11) smod 3 = 0 \<and> - (2 ^ 63) \<le> reg_b (Region 0 11)
   \<and> reg_b (Region 0 11) + int (spec_chunk_count 3 10 (Region 0 11)) * 3 < 2 ^ 63
   \<and> walkChunks (makeTestBlob (testFetcher sampleData1) 10 3 0) (Region 0 11)
         (\<lambda>reg l. (None, l @ [reg])) []
       = Some (None, [Region 0 2, Region 3 5, Region 6 8, Region 9 9])
   \<and> walkChunks (makeTestBlob (testFetcher sampleData1) 10 3 0) (Region (- 2) 11)
         (\<lambda>reg l. (None, l @ [reg])) []
       = Some (Some (MisalignedRegion (- 2) 11), [])
   \<and> spec_chunks 3 10 (Region 0 11) = [Region 0 2, Region 3 5, Region 6 8, Region 9 9]"
  using walkChunks_spec [where b = "makeTestBlob (testFetcher sampleData1) 10 3 0"
      and r = "Region 0 11" and k = 2 and walkFn = "\<lambda>reg l. (None, l @ [reg])" and st = "[]"]
    walkChunks_spec [where b = "makeTestBlob (testFetcher sampleData1) 10 3 0"
      and r = "Region (- 2) 11" and k = 0 and walkFn = "\<lambda>reg l. (None, l @ [reg])" and st = "[]"]
  by (simp add: makeTestBlob_def signed_modulo_int_def
      spec_chunks_def spec_chunk_count_def spec_chunk_def upt_rec)

subsection \<open>Invariants of the loops\<close>

lemma walkLoop_invariant_aux:
  assumes "walkLoop sz cs e walkFn i st = Some r"
    and "I st"
    and "\<forall>reg s err s'. I s \<longrightarrow> walkFn reg s = (err, s') \<longrightarrow> I s'"
  shows "I (snd r)"
  using assms
proof (induction rule: walkLoop.raw_induct [rotated 1, consumes 1])
  case (1 walkLoop sz cs e walkFn i st r)
  show ?case
  proof (cases "i \<le> e \<and> i < sz")
    case False
    then have "r = (None, st)" using 1(2) by (auto split: if_splits)
    then show ?thesis using 1(3) by simp
  next
    case True
    define reg where "reg = (let reg = Region i (i64 (i + cs - 1))
                             in if sz \<le> reg_e reg then Region (reg_b reg) (i64 (sz - 1)) else reg)"
    obtain err s' where fn: "walkFn reg st = (err, s')" by (cases "walkFn reg st")
    have s': "I s'" using 1(3,4) fn by blast
    show ?thesis
    proof (cases err)
      case None
      then have "walkLoop sz cs e walkFn (i64 (i + cs)) s' = Some r"
        using 1(2) True fn by (simp add: reg_def Let_def)
      then show ?thesis using s' 1(4) by (rule 1(1))
    next
      case (Some a)
      then have "r = (Some a, s')" using 1(2) True fn by (simp add: reg_def Let_def)
      then show ?thesis using s' by simp
    qed
  qed
qed

lemma walkChunks_invariant:
  assumes "walkChunks b reg walkFn st = Some (err, st')"
    and "I st"
    and "\<And>reg s err s'. I s \<Longrightarrow> walkFn reg s = (err, s') \<Longrightarrow> I s'"
  shows "I st'"
proof (cases "b_chunkSize b = 0 \<or> reg_b reg smod b_chunkSize b \<noteq> 0")
  case True
  then show ?thesis using assms(1,2) by (auto simp add: walkChunks_def split: if_splits)
next
  case False
  then have "walkLoop (b_size b) (b_chunkSize b) (reg_e reg) walkFn (reg_b reg) st = Some (err, st')"
    using assms(1) by (simp add: walkChunks_def)
  moreover have "\<forall>reg s err s'. I s \<longrightarrow> walkFn reg s = (err, s') \<longrightarrow> I s'"
    by (intro allI impI) (rule assms(3))
  ultimately have "I (snd (err, st'))" using assms(2)
    by (intro walkLoop_invariant_aux [where I = I and walkFn = walkFn])
  then show ?thesis by simp
qed

lemma copyN_invariant_aux:
  assumes "I dst"
    and "\<forall>d s err s'. I s \<longrightarrow> wr d s = (err, s') \<longrightarrow> I s'"
  shows "I (snd (snd (copyN wr rd n dst)))"
  using assms
proof (induction wr rd n dst rule: copyN.induct)
  case (1 wr rd n dst)
  note step = 1(4)
  show ?case
  proof (cases "n = 0")
    case True
    then show ?thesis using 1(3) by (subst copyN.simps) simp
  next
    case n: False
    show ?thesis
    proof (cases rd)
      case Nil
      then show ?thesis using n 1(3) by (subst copyN.simps) simp
    next
      case (Cons pc rest)
      define d where "d = take n pc"
      define rd' where "rd' = (if length pc \<le> n then rest else drop n pc # rest)"
      have unfold: "copyN wr rd n dst =
          (if d = [] then copyN wr rd' n dst
           else case wr d dst of
                  (Some err, dst') \<Rightarrow> (Some err, rd', dst')
                | (None, dst') \<Rightarrow> copyN wr rd' (n - length d) dst')"
        using n Cons
        by (subst copyN.simps) (simp add: d_def rd'_def Let_def split: prod.splits option.splits)
      show ?thesis
      proof (cases "d = []")
        case True
        have "I (snd (snd (copyN wr rd' n dst)))"
          using 1(1) [OF n Cons d_def rd'_def True 1(3) step] .
        then show ?thesis using True by (simp add: unfold)
      next
        case False
        obtain err s' where w: "wr d dst = (err, s')" by (cases "wr d dst")
        have s': "I s'" using 1(3) w step by blast
        show ?thesis
        proof (cases err)
          case None
          have "I (snd (snd (copyN wr rd' (n - length d) s')))"
            using 1(2) [OF n Cons d_def rd'_def False w [symmetric] None s' step] .
          then show ?thesis using False w None by (simp add: unfold)
        next
          case (Some a)
          then show ?thesis using False w s' by (simp add: unfold)
        qed
      qed
    qed
  qed
qed

subsection \<open>What a fetch leaves unchanged\<close>

lemma length_copy_slice [simp]: "length (copy_slice store lo hi src) = length store"
  by (simp add: copy_slice_def)

lemma length_bytesWriter_Write [simp]:
  "length (snd (snd (bytesWriter_Write base len destOff current p store))) = length store"
  by (simp add: bytesWriter_Write_def Let_def)

lemma length_writer_Write [simp]: "length (snd (snd (writer_Write w p store))) = length store"
  by (cases w) (simp_all add: writer_Write_def)

lemma multiWriter_Write_length:
  "length (snd (snd (snd (multiWriter_Write p (cw, w, store))))) = length store"
proof (cases w)
  case None
  then show ?thesis by (simp add: multiWriter_Write_def)
next
  case (Some w0)
  obtain err w1 store' where r: "writer_Write w0 p store = (err, w1, store')"
    by (cases "writer_Write w0 p store") auto
  then have "length store' = length store" using length_writer_Write [of w0 p store] by simp
  then show ?thesis using Some r by (simp add: multiWriter_Write_def)
qed

lemma single_Write_length:
  "length (snd (snd (single_Write p (w, store)))) = length store"
proof -
  obtain err w1 store' where r: "writer_Write w p store = (err, w1, store')"
    by (cases "writer_Write w p store") auto
  then have "length store' = length store" using length_writer_Write [of w p store] by simp
  then show ?thesis using r by (simp add: single_Write_def)
qed

lemma copyN_multiWriter_length:
  assumes "copyN multiWriter_Write rd n (cw, w, store) = (err, rd', cw', w', store')"
  shows "length store' = length store"
proof -
  have "(\<lambda>s. length (snd (snd s)) = length store) (snd (snd (copyN multiWriter_Write rd n (cw, w, store))))"
  proof (rule copyN_invariant_aux)
    show "length (snd (snd (cw, w, store))) = length store" by simp
    show "\<forall>d s err s'. length (snd (snd s)) = length store \<longrightarrow> multiWriter_Write d s = (err, s')
        \<longrightarrow> length (snd (snd s')) = length store"
    proof (intro allI impI)
      fix d s err s'
      assume a: "length (snd (snd s)) = length store" "multiWriter_Write d s = (err, s')"
      obtain c1 w1 s1 where s: "s = (c1, w1, s1)" by (cases s) auto
      show "length (snd (snd s')) = length store"
        using multiWriter_Write_length [of d c1 w1 s1] a s by simp
    qed
  qed
  then show ?thesis using assms by simp
qed

lemma copyN_single_length:
  assumes "copyN single_Write rd n (w, store) = (err, rd', w', store')"
  shows "length store' = length store"
proof -
  have "(\<lambda>s. length (snd s) = length store) (snd (snd (copyN single_Write rd n (w, store))))"
  proof (rule copyN_invariant_aux)
    show "length (snd (w, store)) = length store" by simp
    show "\<forall>d s err s'. length (snd s) = length store \<longrightarrow> single_Write d s = (err, s')
        \<longrightarrow> length (snd s') = length store"
    proof (intro allI impI)
      fix d s err s'
      assume a: "length (snd s) = length store" "single_Write d s = (err, s')"
      obtain w1 s1 where s: "s = (w1, s1)" by (cases s) auto
      show "length (snd s') = length store"
        using single_Write_length [of d w1 s1] a s by simp
    qed
  qed
  then show ?thesis using assms by simp
qed

lemma cacheChunkData_eq:
  assumes "w = (if map_of (fs_fetched st) chunk \<noteq> None
               then Some (allData_get (fs_allData st) chunk) else None)"
    and "copyN multiWriter_Write (fs_reader st) (nat (region_size chunk)) ([], w, fs_buf st)
            = (err, rd', cw, w', store')"
    and "st1 = st\<lparr>fs_reader := rd', fs_buf := store',
                   fs_allData := (case w' of None \<Rightarrow> fs_allData st
                                  | Some w1 \<Rightarrow> allData_mutate (fs_allData st) chunk w1)\<rparr>"
  shows "cacheChunkData fr chunk st =
     (case err of
        Some e \<Rightarrow> (Some (wrap WriteChunkError e), st1)
      | None \<Rightarrow>
          (None, st1\<lparr>fs_blob := (fs_blob st)
                        \<lparr>b_cache := cache_Commit (b_cache (fs_blob st)) (f_genID fr chunk) cw,
                         b_fetchedRegionSet :=
                           regionSet_add chunk (b_fetchedRegionSet (fs_blob st))\<rparr>,
                     fs_fetched := AList.update chunk True (fs_fetched st)\<rparr>))"
  using assms by (cases err) (simp_all add: cacheChunkData_def Let_def)

lemma cacheChunkData_frame:
  assumes "same_frame b len st"
  shows "same_frame b len (snd (cacheChunkData fr chunk st))"
proof -
  define w where "w = (if map_of (fs_fetched st) chunk \<noteq> None
               then Some (allData_get (fs_allData st) chunk) else None)"
  obtain err rd' cw w' store' where
    res: "copyN multiWriter_Write (fs_reader st) (nat (region_size chunk)) ([], w, fs_buf st)
            = (err, rd', cw, w', store')"
    by (metis prod_cases5)
  have "length store' = len" using copyN_multiWriter_length [OF res] assms by (simp add: same_frame_def)
  then show ?thesis using assms
    by (cases err) (simp_all add: cacheChunkData_eq [OF w_def res refl] same_frame_def)
qed

lemma copyFetchedChunk_frame:
  assumes "same_frame b len st"
  shows "same_frame b len (snd (copyFetchedChunk chunk st))"
proof (cases "cache_Get (b_cache (fs_blob st)) (f_genID (getFetcher (fs_blob st)) chunk)")
  case (Inl a)
  then show ?thesis using assms by (simp add: copyFetchedChunk_def)
next
  case (Inr r)
  obtain err rd' w' store' where
    res: "copyN single_Write (sectionReader r 0 (nat (region_size chunk))) (nat (region_size chunk))
            (allData_get (fs_allData st) chunk, fs_buf st) = (err, rd', w', store')"
    by (metis prod_cases4)
  have "length store' = len" using copyN_single_length [OF res] assms by (simp add: same_frame_def)
  then show ?thesis using assms res Inr
    by (simp add: copyFetchedChunk_def Let_def same_frame_def)
qed


lemma fetchParts_frame:
  "fetchParts fr mr st = Some (err, st') \<Longrightarrow> same_frame b len st \<Longrightarrow> same_frame b len st'"
proof (induction fr mr st rule: fetchParts.induct)
  case (1 fr st)
  then show ?case by simp
next
  case (2 fr err mr st)
  then show ?case by simp
next
  case (3 fr reg p mr st)
  obtain e1 st1 where w: "walkChunks (fs_blob st) reg (cacheChunkData fr) (st\<lparr>fs_reader := p\<rparr>) = Some (e1, st1)"
    using 3(2) by (auto split: option.splits)
  have "same_frame b len (st\<lparr>fs_reader := p\<rparr>)" using 3(3) by (simp add: same_frame_def)
  with w have f1: "same_frame b len st1"
  proof (rule walkChunks_invariant)
    fix reg s err s'
    assume "same_frame b len s" "cacheChunkData fr reg s = (err, s')"
    then show "same_frame b len s'" using cacheChunkData_frame [of b len s fr reg] by simp
  qed
  show ?case
  proof (cases e1)
    case None
    then have "fetchParts fr mr st1 = Some (err, st')" using 3(2) w by simp
    then show ?thesis using 3(1) [OF w [unfolded None] refl] f1 None by simp
  next
    case (Some a)
    then show ?thesis using 3(2) w f1 by simp
  qed
qed

lemma fetchRegions_frame:
  assumes "fetchRegions now st = Some (err, st')" "same_frame b len st"
  shows "same_frame b len st'"
proof (cases "fs_allData st = []")
  case True
  then show ?thesis using assms by (simp add: fetchRegions_def)
next
  case False
  define st1 where "st1 = st\<lparr>fs_fetched := fold (\<lambda>reg f. AList.update reg False f)
      (map fst (fs_allData st)) (fs_fetched st)\<rparr>"
  have f1: "same_frame b len st1" using assms(2) by (simp add: st1_def same_frame_def)
  show ?thesis
  proof (cases "f_fetch (getFetcher (fs_blob st)) (map fst (fs_allData st))")
    case (Inl a)
    then show ?thesis using assms(1) False f1 by (simp add: fetchRegions_def Let_def st1_def)
  next
    case (Inr mr)
    define st2 where "st2 = st1\<lparr>fs_blob := (fs_blob st1)\<lparr>b_lastCheck := now\<rparr>\<rparr>"
    have f2: "same_frame b len st2" using f1 by (simp add: st2_def same_frame_def)
    obtain e3 st3 where p: "fetchParts (getFetcher (fs_blob st)) mr st2 = Some (e3, st3)"
      using assms(1) False Inr by (auto simp add: fetchRegions_def Let_def st1_def st2_def split: option.splits)
    have f3: "same_frame b len st3" using fetchParts_frame [OF p f2] .
    have "st' = st3" using assms(1) False Inr p
      by (cases e3) (auto simp add: fetchRegions_def Let_def st1_def st2_def split: if_splits)
    then show ?thesis using f3 by simp
  qed
qed

lemma copyFetchedChunks_frame:
  assumes "copyFetchedChunks reg st = Some (err, st')" "same_frame b len st"
  shows "same_frame b len st'"
  using assms unfolding copyFetchedChunks_def
proof (rule walkChunks_invariant)
  fix reg s err s'
  assume "same_frame b len s" "copyFetchedChunk reg s = (err, s')"
  then show "same_frame b len s'" using copyFetchedChunk_frame [of b len s reg] by simp
qed

lemma handleSharedLoop_frame:
  "handleSharedLoop regs st = Some (err, st') \<Longrightarrow> same_frame b len st \<Longrightarrow> same_frame b len st'"
proof (induction regs arbitrary: st)
  case Nil
  then show ?case by simp
next
  case (Cons reg regs)
  show ?case
  proof (cases "map_of (fs_fetched st) reg \<noteq> None")
    case True
    then have "handleSharedLoop regs st = Some (err, st')" using Cons.prems(1) by simp
    then show ?thesis using Cons.prems(2) by (rule Cons.IH)
  next
    case False
    obtain e1 st1 where c: "copyFetchedChunks reg st = Some (e1, st1)"
      using Cons.prems(1) False by (auto split: option.splits)
    have f1: "same_frame b len st1" using copyFetchedChunks_frame [OF c Cons.prems(2)] .
    show ?thesis
    proof (cases e1)
      case None
      then have "handleSharedLoop regs st1 = Some (err, st')" using Cons.prems(1) False c by simp
      then show ?thesis using f1 by (rule Cons.IH)
    next
      case (Some a)
      then show ?thesis using Cons.prems(1) False c f1 by simp
    qed
  qed
qed

lemma singleflight_Do_frame:
  assumes "singleflight_Do f st = Some (err, shared, st')" "same_frame b len st"
  shows "same_frame b len st'"
proof (cases f)
  case (Leader sh now)
  then have "fetchRegions now st = Some (err, st')"
    using assms(1) by (auto simp add: singleflight_Do_def split: option.splits)
  then show ?thesis using assms(2) by (rule fetchRegions_frame)
next
  case (Follower e c)
  then show ?thesis using assms by (auto simp add: singleflight_Do_def same_frame_def)
qed

lemma fetchRange_frame:
  "fetchRange fl st = Some (err, st', k) \<Longrightarrow> same_frame b len st \<Longrightarrow> same_frame b len st'"
proof (induction fl arbitrary: st k)
  case Nil
  then show ?case by (simp split: if_splits)
next
  case (Cons f fl)
  show ?case
  proof (cases "fs_allData st = []")
    case True
    then show ?thesis using Cons.prems by simp
  next
    case ne: False
    have f0: "same_frame b len (st\<lparr>fs_fetched := []\<rparr>)"
      using Cons.prems(2) by (simp add: same_frame_def)
    obtain e1 shared st1 where d: "singleflight_Do f (st\<lparr>fs_fetched := []\<rparr>) = Some (e1, shared, st1)"
      using Cons.prems(1) ne by (cases "singleflight_Do f (st\<lparr>fs_fetched := []\<rparr>)") auto
    have f1: "same_frame b len st1" using singleflight_Do_frame [OF d f0] .
    show ?thesis
    proof (cases "e1 = None \<and> shared")
      case False
      then have "st' = st1" using Cons.prems(1) ne d by auto
      then show ?thesis using f1 by simp
    next
      case True
      obtain e2 st2 where h: "handleSharedFetch st1 = Some (e2, st2)"
        using Cons.prems(1) ne d True by (cases "handleSharedFetch st1") auto
      have f2: "same_frame b len st2"
        using h f1 unfolding handleSharedFetch_def by (rule handleSharedLoop_frame)
      show ?thesis
      proof (cases "\<exists>e. e2 = Some e \<and> \<not> isPanic e")
        case False
        then have "st' = st2" using Cons.prems(1) ne d True h by (cases e2) auto
        then show ?thesis using f2 by simp
      next
        case r: True
        then obtain k' where "fetchRange fl st2 = Some (err, st', k')"
          using Cons.prems(1) ne d True h by (cases "fetchRange fl st2") auto
        then show ?thesis using f2 by (rule Cons.IH)
      qed
    qed
  qed
qed


lemma readFromCache_length [simp]:
  "length (snd (readFromCache b chunk base n offset fr store)) = length store"
  by (simp add: readFromCache_def Let_def split: sum.splits prod.splits)

lemma prepareChunk_length:
  assumes "prepareChunk b offset fr chunk (p, ad) = (err, (p', ad'))"
  shows "length p' = length p"
proof -
  define base where "base = positive (i64 (reg_b chunk - offset))"
  define lowerUnread where "lowerUnread = positive (i64 (offset - reg_b chunk))"
  define expectedSize where "expectedSize = i64 (region_size chunk
      - positive (i64 (reg_e chunk + 1 - (offset + int (length p)))) - lowerUnread)"
  define high where "high = i64 (base + expectedSize)"
  obtain e1 p1 where r: "readFromCache b chunk (nat base) (nat (high - base)) lowerUnread fr p = (e1, p1)"
    by (cases "readFromCache b chunk (nat base) (nat (high - base)) lowerUnread fr p")
  have "length p1 = length p"
    using readFromCache_length [of b chunk "nat base" "nat (high - base)" lowerUnread fr p] r by simp
  then show ?thesis using assms r
    by (cases e1)
      (auto simp add: prepareChunk_def Let_def base_def lowerUnread_def expectedSize_def high_def
        split: if_splits)
qed

lemma prepareChunksForRead_length:
  assumes "prepareChunksForRead b allRegion offset fr (p, ad) = Some (err, (p', ad'))"
  shows "length p' = length p"
proof -
  have "(\<lambda>s. length (fst s) = length p) (p', ad')"
    using assms unfolding prepareChunksForRead_def
  proof (rule walkChunks_invariant)
    show "length (fst (p, ad)) = length p" by simp
    fix reg s err s'
    assume a: "length (fst s) = length p" "prepareChunk b offset fr reg s = (err, s')"
    obtain p1 a1 where s: "s = (p1, a1)" by (cases s)
    obtain p2 a2 where s': "s' = (p2, a2)" by (cases s')
    show "length (fst s') = length p"
      using prepareChunk_length [of b offset fr reg p1 a1 err p2 a2] a s s' by simp
  qed
  then show ?thesis by simp
qed

lemma adjustBufferSize_eq:
  "adjustBufferSize b p offset = min (int (length p)) (max 0 (b_size b - offset))"
  by (auto simp add: adjustBufferSize_def Let_def min_def max_def)

lemma ReadAt_returns_count:
  assumes "ReadAt fl p offset b = Some (Inr n, p', b')"
  shows "n = min (int (length p)) (max 0 (b_size b - offset))"
proof (cases "length p = 0 \<or> offset > b_size b")
  case True
  then show ?thesis using assms(1) by (auto simp add: ReadAt_def split: if_splits)
next
  case False
  then have open_blob: "\<not> isClosed b" and cs: "b_chunkSize b \<noteq> 0"
    using assms(1) by (auto simp add: ReadAt_def split: if_splits)
  define allRegion where "allRegion = Region (floor offset (b_chunkSize b))
      (i64 (ceil (i64 (offset + int (length p) - 1)) (b_chunkSize b) - 1))"
  obtain e1 p1 ad where prep:
    "prepareChunksForRead b allRegion offset (getFetcher b) (p, []) = Some (e1, (p1, ad))"
    using assms(1) False open_blob cs
    by (cases "prepareChunksForRead b allRegion offset (getFetcher b) (p, [])")
      (auto simp add: ReadAt_def Let_def allRegion_def)
  have e1: "e1 = None" using assms(1) False open_blob cs prep
    by (cases e1) (auto simp add: ReadAt_def Let_def allRegion_def)
  define st0 where "st0 = \<lparr>fs_blob = b, fs_allData = ad, fs_fetched = [], fs_buf = p1, fs_reader = []\<rparr>"
  obtain e2 st k where fr: "fetchRange fl st0 = Some (e2, st, k)"
    using assms(1) False open_blob cs prep e1
    by (cases "fetchRange fl st0") (auto simp add: ReadAt_def Let_def allRegion_def st0_def)
  have e2: "e2 = None" and n: "n = adjustBufferSize (fs_blob st) (fs_buf st) offset"
    using assms(1) False open_blob cs prep e1 fr
    by (cases e2; auto simp add: ReadAt_def Let_def allRegion_def st0_def)+
  have "same_frame b (length p) st0"
    using prepareChunksForRead_length [OF prep] by (simp add: same_frame_def st0_def)
  then have "same_frame b (length p) st" using fetchRange_frame [OF fr] by simp
  then show ?thesis using n by (simp add: adjustBufferSize_eq same_frame_def)
qed

text \<open>
  C2. For every call \<^verbatim>\<open>ReadAt(dst, off)\<close> with \<open>off \<ge> 0\<close> that returns without error, the
  returned byte count is \<open>min (len dst) (max 0 (size - off))\<close>, whatever the cache, the
  fetcher and the single-flight group did.
\<close>

theorem ReadAt_count:
  assumes "0 \<le> offset" "ReadAt fl p offset b = Some (Inr n, p', b')"
  shows "n = min (int (length p)) (max 0 (b_size b - offset))"
  using assms(2) by (rule ReadAt_returns_count)

theorem ReadAt_count_witness:
  "(0::int) \<le> 8
   \<and> map_option fst (ReadAt [Leader False 5] ''xxxx'' 8 (makeTestBlob (testFetcher sampleData1) 10 3 0))
        = Some (Inr 2)
   \<and> (2::int) = min (int (length ''xxxx''))
                   (max 0 (b_size (makeTestBlob (testFetcher sampleData1) 10 3 0) - 8))"
proof -
  have ev: "map_option fst
      (ReadAt [Leader False 5] ''xxxx'' 8 (makeTestBlob (testFetcher sampleData1) 10 3 0))
      = Some (Inr 2)"
    by code_simp
  then obtain p' b' where
    "ReadAt [Leader False 5] ''xxxx'' 8 (makeTestBlob (testFetcher sampleData1) 10 3 0)
      = Some (Inr 2, p', b')"
    by (cases "ReadAt [Leader False 5] ''xxxx'' 8 (makeTestBlob (testFetcher sampleData1) 10 3 0)")
      auto
  then have "(2::int) = min (int (length ''xxxx''))
      (max 0 (b_size (makeTestBlob (testFetcher sampleData1) 10 3 0) - 8))"
    by (intro ReadAt_count) simp_all
  then show ?thesis using ev by simp
qed

subsection \<open>The retry of fetchRange\<close>

text \<open>
  C4, as the claim states it, fails: the retry is the plain recursive call
  \<^verbatim>\<open>return b.fetchRange(allData, opts)\<close>, with no counter and no flag. A caller that twice
  receives a shared result and twice fails to read the chunk back from the cache retries
  twice; the third call runs the fetch itself and succeeds.
\<close>

theorem fetchRange_retry_counterexample:
  "map_option (\<lambda>(err, st, k). (err, fs_buf st, k))
     (fetchRange [evicted, evicted, Leader False 5] retryState) = Some (None, ''012'', 2)"
  by code_simp

text \<open>
  The step of the retry: a shared result without error whose re-read from the cache fails
  (without a panic) makes \<^verbatim>\<open>fetchRange\<close> call itself on the state that the failed re-read
  left, whatever the state and the flight are, and what that call returns is returned.
\<close>

lemma retry_step:
  assumes "fs_allData st \<noteq> []"
    and "singleflight_Do f (st\<lparr>fs_fetched := []\<rparr>) = Some (None, True, st1)"
    and "handleSharedFetch st1 = Some (Some e, st2)" and "\<not> isPanic e"
  shows "fetchRange (f # fl) st =
     (case fetchRange fl st2 of
        None \<Rightarrow> None
      | Some (err, st3, k) \<Rightarrow> Some (err, st3, Suc k))"
  using assms by simp

lemma evicted_Do:
  "singleflight_Do evicted (retryState\<lparr>fs_fetched := []\<rparr>) = Some (None, True, retryState)"
proof -
  have "retryState\<lparr>fs_fetched := [], fs_blob := (fs_blob retryState)\<lparr>b_cache := Map.empty\<rparr>\<rparr> = retryState"
    by (simp add: retryState_def makeTestBlob_def)
  then show ?thesis
    by (simp add: singleflight_Do_def evicted_def retryState_def makeTestBlob_def)
qed

lemma evicted_reread: "handleSharedFetch retryState = Some (Some CacheMiss, retryState)"
  by (simp add: handleSharedFetch_def retryState_def copyFetchedChunks_def walkChunks_def
      walkLoop.simps makeTestBlob_def signed_modulo_int_def copyFetchedChunk_def getFetcher_def
      cache_Get_def Let_def i64_def)

lemma fetchRange_evicted:
  "fetchRange (evicted # fl) retryState =
     (case fetchRange fl retryState of
        None \<Rightarrow> None
      | Some (err, st, k) \<Rightarrow> Some (err, st, Suc k))"
proof -
  have ne: "fs_allData retryState \<noteq> []" by (simp add: retryState_def)
  have np: "\<not> isPanic CacheMiss" by (simp add: isPanic_def)
  show ?thesis using ne evicted_Do evicted_reread np by (rule retry_step)
qed

lemma fetchRange_leader:
  "map_option (\<lambda>(err, st, k). (err, fs_buf st, k)) (fetchRange [Leader False 5] retryState)
     = Some (None, ''012'', 0)"
  by code_simp

lemma fetchRange_evicted_run:
  "map_option (\<lambda>(err, st, k). (err, fs_buf st, k))
     (fetchRange (replicate n evicted @ [Leader False 5]) retryState) = Some (None, ''012'', n)"
proof (induction n)
  case 0
  show ?case using fetchRange_leader by simp
next
  case (Suc n)
  then obtain st where r: "fetchRange (replicate n evicted @ [Leader False 5]) retryState
      = Some (None, st, n)" and buf: "fs_buf st = ''012''"
    by (cases "fetchRange (replicate n evicted @ [Leader False 5]) retryState") auto
  have "fetchRange (evicted # (replicate n evicted @ [Leader False 5])) retryState
      = Some (None, st, Suc n)"
    by (simp only: fetchRange_evicted r option.case prod.case)
  then show ?case using buf by simp
qed

text \<open>
  C4, amended. When a caller receives a shared single-flight result and its re-read of
  the regions from the cache fails, \<^verbatim>\<open>fetchRange\<close> calls itself again, from every state and
  after every such failure: each failure adds one recursive call, whose result is returned.
  The source puts no bound on the number of retries: for every \<open>n\<close> there is a run of one call
  in which \<^verbatim>\<open>fetchRange\<close> retries exactly \<open>n\<close> times before it returns (here successfully,
  with the chunk in the buffer).
\<close>

theorem fetchRange_retries:
  "(fs_allData st \<noteq> [] \<and> singleflight_Do f (st\<lparr>fs_fetched := []\<rparr>) = Some (None, True, st1)
      \<and> handleSharedFetch st1 = Some (Some e, st2) \<and> \<not> isPanic e
    \<longrightarrow> fetchRange (f # fl) st =
          (case fetchRange fl st2 of
             None \<Rightarrow> None
           | Some (err, st3, k) \<Rightarrow> Some (err, st3, Suc k)))
   \<and> map_option (\<lambda>(err, st, k). (err, fs_buf st, k))
        (fetchRange (replicate n evicted @ [Leader False 5]) retryState) = Some (None, ''012'', n)"
  using retry_step [of st f st1 e st2 fl] fetchRange_evicted_run [of n] by blast

theorem fetchRange_retries_witness:
  "fs_allData retryState \<noteq> []
   \<and> singleflight_Do evicted (retryState\<lparr>fs_fetched := []\<rparr>) = Some (None, True, retryState)
   \<and> handleSharedFetch retryState = Some (Some CacheMiss, retryState) \<and> \<not> isPanic CacheMiss
   \<and> fetchRange (evicted # [Leader False 5]) retryState =
        (case fetchRange [Leader False 5] retryState of
           None \<Rightarrow> None
         | Some (err, st3, k) \<Rightarrow> Some (err, st3, Suc k))
   \<and> map_option (\<lambda>(err, st, k). (err, fs_buf st, k))
        (fetchRange (replicate 3 evicted @ [Leader False 5]) retryState) = Some (None, ''012'', 3)"
proof -
  have ne: "fs_allData retryState \<noteq> []" by (simp add: retryState_def)
  have np: "\<not> isPanic CacheMiss" by (simp add: isPanic_def)
  from fetchRange_retries [where st = retryState and f = evicted and ?st1.0 = retryState
      and e = CacheMiss and ?st2.0 = retryState and fl = "[Leader False 5]" and n = 3]
  show ?thesis using ne np evicted_Do evicted_reread by simp
qed

subsection \<open>The chunks of a read\<close>

lemma floor_nonneg: "0 \<le> n \<Longrightarrow> n < 2 ^ 63 \<Longrightarrow> 0 < c \<Longrightarrow> floor n c = n div c * c"
  by (simp add: floor_eq int64_def sdiv_nonneg)

lemma ceil_nonneg:
  assumes "0 \<le> n" "0 < c" "n + c < 2 ^ 63"
  shows "ceil n c = (n div c + 1) * c"
proof -
  have "n div c * c \<le> n" using sdiv_between(1) [OF assms(2,1)] assms by (simp add: sdiv_nonneg)
  then have "(n div c + 1) * c < 2 ^ 63" using assms(3) by (simp add: algebra_simps)
  then show ?thesis using assms by (simp add: ceil_eq int64_def sdiv_nonneg)
qed

lemma smod_mult_self: "0 < c \<Longrightarrow> (k * c) smod c = (0::int)"
  using sdiv_mult_smod_eq [of "k * c" c] by (simp add: sdiv_mult_self)

lemma floor_aligned: "0 < c \<Longrightarrow> int64 n \<Longrightarrow> floor n c smod c = 0"
  by (simp add: floor_eq smod_mult_self)


lemma walkChunks_aligned:
  assumes "0 < b_chunkSize b" "reg_b r smod b_chunkSize b = 0" "- (2 ^ 63) \<le> reg_b r"
    and "reg_b r + int (spec_chunk_count (b_chunkSize b) (b_size b) r) * b_chunkSize b < 2 ^ 63"
  shows "walkChunks b r walkFn st
           = Some (walk_list walkFn (spec_chunks (b_chunkSize b) (b_size b) r) st)"
  using assms walkLoop_eq [OF assms(1) refl, where s = "b_size b" and i = "reg_b r" and e = "reg_e r"]
  by (simp add: walkChunks_def)

text \<open>
  The start offsets of the chunks of a region that ends just below a point of the grid of
  its start stay at or below that point.
\<close>

lemma count_grid:
  assumes c: "0 < c" and g: "reg_e r + 1 = reg_b r + q * c" and q: "0 \<le> q"
  shows "reg_b r + int (spec_chunk_count c s r) * c \<le> reg_e r + 1"
proof (cases "spec_chunk_count c s r")
  case 0
  then show ?thesis using g q c by simp
next
  case (Suc k)
  then have "k < spec_chunk_count c s r" by simp
  then have "reg_b r + int k * c \<le> min (reg_e r) (s - 1)" using count_less_iff [OF c] by blast
  then have "int k * c < q * c" using g by simp
  then have "int k < q" using c by (simp add: mult_less_cancel_right)
  then have "int k + 1 \<le> q" by simp
  then have "(int k + 1) * c \<le> q * c" using c by (intro mult_right_mono) simp_all
  then show ?thesis using g Suc by (simp add: algebra_simps)
qed

text \<open>
  The region that \<^verbatim>\<open>ReadAt\<close> walks, when \<open>offset + len + c\<close> does not exceed \<open>2 ^ 63\<close>.
\<close>

lemma read_region_eq:
  assumes c: "0 < c" and off: "0 \<le> offset" and len: "0 < len" and fit: "offset + len + c \<le> 2 ^ 63"
  shows "read_region c offset len
           = Region (offset div c * c) (((offset + len - 1) div c + 1) * c - 1)"
proof -
  have a: "i64 (offset + len - 1) = offset + len - 1"
    using off len fit c by (intro i64_id) (simp add: int64_def)
  have fl: "floor offset c = offset div c * c"
    using off len fit c by (intro floor_nonneg) simp_all
  have ce: "ceil (offset + len - 1) c = ((offset + len - 1) div c + 1) * c"
    using off len fit c by (intro ceil_nonneg) simp_all
  have "(offset + len - 1) div c * c \<le> offset + len - 1"
    using sdiv_between(1) [OF c, of "offset + len - 1"] off len c by (simp add: sdiv_nonneg)
  moreover have "0 \<le> (offset + len - 1) div c * c"
    using sdiv_between(1) [OF c, of "offset + len - 1"] off len c by (simp add: sdiv_nonneg)
  ultimately have "int64 (((offset + len - 1) div c + 1) * c - 1)"
    using fit c by (simp add: int64_def algebra_simps)
  then show ?thesis by (simp add: read_region_def a fl ce i64_id)
qed

lemma read_region_walk:
  assumes c: "0 < c" and off: "0 \<le> offset" and len: "0 < len" and fit: "offset + len + c \<le> 2 ^ 63"
  shows "reg_b (read_region c offset len) smod c = 0" and "- (2 ^ 63) \<le> reg_b (read_region c offset len)"
    and "reg_b (read_region c offset len)
           + int (spec_chunk_count c s (read_region c offset len)) * c < 2 ^ 63"
proof -
  note eq = read_region_eq [OF assms]
  have nn: "0 \<le> offset div c" using off c by (simp add: pos_imp_zdiv_nonneg_iff)
  show "reg_b (read_region c offset len) smod c = 0" using c by (simp add: eq smod_mult_self)
  have "0 \<le> offset div c * c" using nn c by simp
  then show "- (2 ^ 63) \<le> reg_b (read_region c offset len)" by (simp add: eq)
  have mono: "offset div c \<le> (offset + len - 1) div c" using c len by (intro zdiv_mono1) simp_all
  define q where "q = (offset + len - 1) div c + 1 - offset div c"
  have q: "0 \<le> q" using mono by (simp add: q_def)
  have g: "reg_e (read_region c offset len) + 1 = reg_b (read_region c offset len) + q * c"
    by (simp add: eq q_def algebra_simps)
  have "reg_b (read_region c offset len) + int (spec_chunk_count c s (read_region c offset len)) * c
          \<le> reg_e (read_region c offset len) + 1"
    using c g q by (rule count_grid)
  moreover have "(offset + len - 1) div c * c \<le> offset + len - 1"
    using sdiv_between(1) [OF c, of "offset + len - 1"] off len c by (simp add: sdiv_nonneg)
  then have "reg_e (read_region c offset len) + 1 < 2 ^ 63"
    using fit by (simp add: eq algebra_simps)
  ultimately show "reg_b (read_region c offset len)
           + int (spec_chunk_count c s (read_region c offset len)) * c < 2 ^ 63" by linarith
qed

lemma read_chunk_facts:
  assumes c: "0 < c" and off: "0 \<le> offset" and len: "0 < len" and fit: "offset + len + c \<le> 2 ^ 63"
    and mem: "chunk \<in> set (read_chunks c s offset len)"
  shows "offset - c < reg_b chunk" and "reg_b chunk \<le> offset + len - 1" and "reg_b chunk < s"
    and "reg_e chunk = min (reg_b chunk + c - 1) (s - 1)" and "0 \<le> reg_b chunk"
    and "reg_b chunk smod c = 0" and "\<exists>k. reg_b chunk = floor offset c + int k * c"
proof -
  let ?r = "Region (offset div c * c) (((offset + len - 1) div c + 1) * c - 1)"
  note eq = read_region_eq [OF c off len fit]
  obtain k where k: "k < spec_chunk_count c s ?r" and ch: "chunk = spec_chunk c s ?r k"
    using mem by (auto simp add: read_chunks_def spec_chunks_def eq)
  have fl: "floor offset c = offset div c * c" using off len fit c by (intro floor_nonneg) simp_all
  have b: "reg_b chunk = (offset div c + int k) * c" using ch by (simp add: spec_chunk_def algebra_simps)
  have le: "reg_b chunk \<le> min (((offset + len - 1) div c + 1) * c - 1) (s - 1)"
    using count_less_iff [OF c, of k s ?r] k ch by (simp add: spec_chunk_def)
  have b': "reg_b chunk = offset div c * c + int k * c" using b by (simp add: algebra_simps)
  have d: "offset div c * c + offset mod c = offset" by simp
  have m: "offset mod c < c" using c by simp
  have kc: "0 \<le> int k * c" using c by simp
  show "offset - c < reg_b chunk" using b' d m kc by linarith
  show "reg_b chunk < s" using le by simp
  show "reg_e chunk = min (reg_b chunk + c - 1) (s - 1)" using ch by (simp add: spec_chunk_def algebra_simps)
  have "0 \<le> offset div c" using off c by (simp add: pos_imp_zdiv_nonneg_iff)
  then show "0 \<le> reg_b chunk" using b c by simp
  show "reg_b chunk smod c = 0" using b c by (simp add: smod_mult_self)
  show "\<exists>k. reg_b chunk = floor offset c + int k * c" using b' fl by auto
  have "(offset div c + int k) * c < ((offset + len - 1) div c + 1) * c" using le b by simp
  then have "offset div c + int k < (offset + len - 1) div c + 1" using c by (simp add: mult_less_cancel_right)
  then have "offset div c + int k \<le> (offset + len - 1) div c" by simp
  then have "(offset div c + int k) * c \<le> (offset + len - 1) div c * c" using c by (simp add: mult_right_mono)
  moreover have "(offset + len - 1) div c * c + (offset + len - 1) mod c = offset + len - 1" by simp
  moreover have "0 \<le> (offset + len - 1) mod c" using c by simp
  ultimately show "reg_b chunk \<le> offset + len - 1" using b by linarith
qed

lemma read_chunk_size:
  assumes c: "0 < c" and off: "0 \<le> offset" and len: "0 < len" and fit: "offset + len + c \<le> 2 ^ 63"
    and mem: "chunk \<in> set (read_chunks c s offset len)"
  shows "region_size chunk = reg_e chunk - reg_b chunk + 1"
proof -
  note f = read_chunk_facts(1-5) [OF assms]
  have "int64 (reg_e chunk - reg_b chunk + 1)"
    using f c fit by (auto simp add: int64_def min_def)
  then show ?thesis by (simp add: region_size_def i64_id)
qed

lemma read_chunk_bounds:
  assumes c: "0 < c" and off: "0 \<le> offset" "offset \<le> s" and len: "0 < len"
    and fit: "offset + len + c \<le> 2 ^ 63"
    and mem: "chunk \<in> set (read_chunks c s offset len)"
  defines "base \<equiv> positive (reg_b chunk - offset)"
    and "lowerUnread \<equiv> positive (offset - reg_b chunk)"
    and "upperUnread \<equiv> positive (reg_e chunk + 1 - (offset + len))"
  defines "expectedSize \<equiv> region_size chunk - upperUnread - lowerUnread"
  shows "0 \<le> base" and "0 \<le> expectedSize" and "base + expectedSize \<le> len"
    and "base + expectedSize = min (reg_e chunk + 1) (offset + len) - offset"
    and "base = max (reg_b chunk - offset) 0"
    and "reg_b chunk + lowerUnread = offset + base"
    and "0 \<le> lowerUnread" and "lowerUnread + expectedSize \<le> region_size chunk"
    and "0 < region_size chunk"
  using read_chunk_facts(1-6) [OF c off(1) len fit mem] off(2) c len
  unfolding base_def lowerUnread_def upperUnread_def expectedSize_def positive_def
    read_chunk_size [OF c off(1) len fit mem]
  by (auto simp add: min_def max_def)

text \<open>
  For a chunk of such a read, none of the differences of \<^verbatim>\<open>prepareChunksForRead\<close> wraps
  around.
\<close>

lemma read_chunk_nowrap:
  assumes c: "0 < c" and off: "0 \<le> offset" "offset \<le> s" and len: "0 < len"
    and fit: "offset + len + c \<le> 2 ^ 63"
    and mem: "chunk \<in> set (read_chunks c s offset len)"
  shows "i64 (reg_b chunk - offset) = reg_b chunk - offset"
    and "i64 (offset - reg_b chunk) = offset - reg_b chunk"
    and "i64 (reg_e chunk + 1 - (offset + len)) = reg_e chunk + 1 - (offset + len)"
    and "i64 (region_size chunk - positive (reg_e chunk + 1 - (offset + len))
              - positive (offset - reg_b chunk))
         = region_size chunk - positive (reg_e chunk + 1 - (offset + len))
              - positive (offset - reg_b chunk)"
    and "i64 (positive (reg_b chunk - offset)
              + (region_size chunk - positive (reg_e chunk + 1 - (offset + len))
                   - positive (offset - reg_b chunk)))
         = positive (reg_b chunk - offset)
              + (region_size chunk - positive (reg_e chunk + 1 - (offset + len))
                   - positive (offset - reg_b chunk))"
proof -
  note f = read_chunk_facts(1-5) [OF c off(1) len fit mem]
  note b = read_chunk_bounds(1-3) [OF assms]
  show "i64 (reg_b chunk - offset) = reg_b chunk - offset"
    using f c off len fit by (intro i64_id) (simp add: int64_def)
  show "i64 (offset - reg_b chunk) = offset - reg_b chunk"
    using f c off len fit by (intro i64_id) (simp add: int64_def)
  show "i64 (reg_e chunk + 1 - (offset + len)) = reg_e chunk + 1 - (offset + len)"
    using f c off len fit by (intro i64_id) (auto simp add: int64_def min_def)
  show "i64 (region_size chunk - positive (reg_e chunk + 1 - (offset + len))
              - positive (offset - reg_b chunk))
         = region_size chunk - positive (reg_e chunk + 1 - (offset + len))
              - positive (offset - reg_b chunk)"
    using b c off len fit by (intro i64_id) (simp add: int64_def)
  show "i64 (positive (reg_b chunk - offset)
              + (region_size chunk - positive (reg_e chunk + 1 - (offset + len))
                   - positive (offset - reg_b chunk)))
         = positive (reg_b chunk - offset)
              + (region_size chunk - positive (reg_e chunk + 1 - (offset + len))
                   - positive (offset - reg_b chunk))"
    using b c off len fit by (intro i64_id) (simp add: int64_def)
qed

subsection \<open>The slices of prepareChunksForRead\<close>

lemma read_chunks_in_bounds:
  assumes "0 < c" "0 \<le> offset" "offset \<le> s" "0 < len" "offset + len + c \<le> 2 ^ 63"
    and "chunk \<in> set (read_chunks c s offset len)"
  shows "chunk_in_bounds offset len chunk"
  using read_chunk_bounds(1-3) [OF assms]
  by (simp add: chunk_in_bounds_def Let_def read_chunk_nowrap [OF assms])

lemma prepareChunk_ok:
  assumes "chunk_in_bounds offset (int (length p)) chunk" "int (length p) < 2 ^ 63"
  shows "\<exists>p' ad'. prepareChunk b offset fr chunk (p, ad) = (None, (p', ad')) \<and> length p' = length p"
proof -
  define base where "base = positive (i64 (reg_b chunk - offset))"
  define expectedSize where "expectedSize = i64 (region_size chunk
      - positive (i64 (reg_e chunk + 1 - (offset + int (length p))))
      - positive (i64 (offset - reg_b chunk)))"
  have inb: "0 \<le> base" "0 \<le> expectedSize" "base + expectedSize \<le> int (length p)"
    using assms(1) by (simp_all add: chunk_in_bounds_def Let_def base_def expectedSize_def)
  then have hi: "i64 (base + expectedSize) = base + expectedSize"
    using assms(2) by (intro i64_id) (simp add: int64_def)
  obtain err p' ad' where r: "prepareChunk b offset fr chunk (p, ad) = (err, (p', ad'))"
    by (metis prod_cases3)
  have "err = None"
    using r inb hi
    by (auto simp add: prepareChunk_def Let_def base_def expectedSize_def
             split: if_splits prod.splits option.splits)
  then show ?thesis using r prepareChunk_length [OF r] by simp
qed

lemma walk_prepare_ok:
  "\<forall>chunk\<in>set chunks. chunk_in_bounds offset (int (length p)) chunk \<Longrightarrow> int (length p) < 2 ^ 63 \<Longrightarrow>
   \<exists>p' ad'. walk_list (prepareChunk b offset fr) chunks (p, ad) = (None, (p', ad'))
            \<and> length p' = length p"
proof (induction chunks arbitrary: p ad)
  case Nil
  then show ?case by simp
next
  case (Cons chunk chunks)
  obtain p1 ad1 where s: "prepareChunk b offset fr chunk (p, ad) = (None, (p1, ad1))"
    and l: "length p1 = length p"
    using prepareChunk_ok [where offset = offset and p = p and chunk = chunk and b = b and fr = fr
        and ad = ad] Cons.prems by auto
  have "\<forall>chunk\<in>set chunks. chunk_in_bounds offset (int (length p1)) chunk"
    "int (length p1) < 2 ^ 63"
    using Cons.prems l by simp_all
  from Cons.IH [OF this, where ad = ad1] show ?case using s l by auto
qed

lemma prepareChunksForRead_eq:
  assumes "0 < b_chunkSize b" "0 \<le> offset" "p \<noteq> []"
    and "offset + int (length p) + b_chunkSize b \<le> 2 ^ 63"
  shows "prepareChunksForRead b (read_region (b_chunkSize b) offset (int (length p))) offset fr st
         = Some (walk_list (prepareChunk b offset fr)
             (read_chunks (b_chunkSize b) (b_size b) offset (int (length p))) st)"
proof -
  have len: "0 < int (length p)" using assms(3) by simp
  note w = read_region_walk(1,2) [OF assms(1,2) len assms(4)]
    read_region_walk(3) [OF assms(1,2) len assms(4), of "b_size b"]
  show ?thesis
    unfolding prepareChunksForRead_def read_chunks_def
    using assms(1) w by (rule walkChunks_aligned)
qed

text \<open>
  C10, as the claim states it, fails. With a blob of \<open>2 ^ 63 - 1\<close> bytes and chunks of \<open>4\<close>,
  a read of one byte at offset \<open>2 ^ 63 - 4\<close> is within \<open>0 \<le> offset \<le> size\<close>. The end of the region wraps around to the
  largest \<^verbatim>\<open>int64\<close>, the walk steps from the last chunk to \<open>- (2 ^ 63)\<close>, and for the chunk it
  finds there \<open>base\<close> is \<open>4\<close> and \<open>expectedSize\<close> is \<open>- 3\<close>: the slice expression panics.
\<close>

theorem read_path_counterexample:
  "(0::int) \<le> 2 ^ 63 - 4 \<and> 2 ^ 63 - 4 \<le> b_size (makeTestBlob (testFetcher sampleData1) (2 ^ 63 - 1) 4 0)
   \<and> ''x'' \<noteq> []
   \<and> map_option fst (ReadAt [] ''x'' (2 ^ 63 - 4) (makeTestBlob (testFetcher sampleData1) (2 ^ 63 - 1) 4 0))
       = Some (Inl (Panic ''slice bounds out of range''))"
  by code_simp

text \<open>
  C10, amended. For every \<^verbatim>\<open>ReadAt\<close> call with \<open>0 \<le> offset \<le> size\<close>, a non-empty \<^verbatim>\<open>dst\<close> and a positive
  chunk size such that \<open>offset + len dst + chunkSize\<close> does not exceed \<open>2 ^ 63\<close>, every chunk
  that \<^verbatim>\<open>prepareChunksForRead\<close> visits has \<open>0 \<le> base\<close>, \<open>0 \<le> expectedSize\<close> and
  \<open>base + expectedSize \<le> len dst\<close>, so the slice expression is in bounds and
  \<^verbatim>\<open>prepareChunksForRead\<close> returns without a panic (and without an error), the buffer keeping
  its length. The precondition \<open>offset \<ge> 0\<close> is needed and the guard \<^verbatim>\<open>offset > b.size\<close> does
  not give it: \<^verbatim>\<open>ReadAt\<close> of one byte at offset \<open>-2\<close> on the test blob panics at the slice
  expression.
\<close>

theorem read_path_in_bounds:
  "map_option fst (ReadAt fl ''x'' (- 2) (makeTestBlob (testFetcher sampleData1) 10 3 0))
     = Some (Inl (Panic ''slice bounds out of range''))
   \<and> (0 < b_chunkSize b \<and> 0 \<le> offset \<and> offset \<le> b_size b \<and> p \<noteq> []
       \<and> offset + int (length p) + b_chunkSize b \<le> 2 ^ 63 \<longrightarrow>
        (\<exists>chunks. walkChunks b (read_region (b_chunkSize b) offset (int (length p)))
                     (\<lambda>reg l. (None, l @ [reg])) [] = Some (None, chunks)
                   \<and> (\<forall>chunk\<in>set chunks. chunk_in_bounds offset (int (length p)) chunk))
        \<and> (\<exists>p' allData. prepareChunksForRead b (read_region (b_chunkSize b) offset (int (length p)))
                     offset fr (p, []) = Some (None, (p', allData)) \<and> length p' = length p))"
proof (intro conjI impI)
  show "map_option fst (ReadAt fl ''x'' (- 2) (makeTestBlob (testFetcher sampleData1) 10 3 0))
     = Some (Inl (Panic ''slice bounds out of range''))"
    by code_simp
next
  assume h: "0 < b_chunkSize b \<and> 0 \<le> offset \<and> offset \<le> b_size b \<and> p \<noteq> []
       \<and> offset + int (length p) + b_chunkSize b \<le> 2 ^ 63"
  let ?r = "read_region (b_chunkSize b) offset (int (length p))"
  let ?chunks = "read_chunks (b_chunkSize b) (b_size b) offset (int (length p))"
  have len: "0 < int (length p)" using h by simp
  have lp: "int (length p) < 2 ^ 63" using h by linarith
  have inb: "\<forall>chunk\<in>set ?chunks. chunk_in_bounds offset (int (length p)) chunk"
    using read_chunks_in_bounds [of "b_chunkSize b" offset "b_size b" "int (length p)"] h len by blast
  have c: "0 < b_chunkSize b" and o: "0 \<le> offset"
    and f: "offset + int (length p) + b_chunkSize b \<le> 2 ^ 63" using h by simp_all
  note w = read_region_walk(1,2) [OF c o len f] read_region_walk(3) [OF c o len f, of "b_size b"]
  have "walkChunks b ?r (\<lambda>reg l. (None, l @ [reg])) [] = Some (None, ?chunks)"
    using walkChunks_aligned [OF c w, of "\<lambda>reg l. (None, l @ [reg])" "[]"]
    by (simp add: read_chunks_def walk_list_record)
  then show "\<exists>chunks. walkChunks b ?r (\<lambda>reg l. (None, l @ [reg])) [] = Some (None, chunks)
                   \<and> (\<forall>chunk\<in>set chunks. chunk_in_bounds offset (int (length p)) chunk)"
    using inb by blast
  show "\<exists>p' allData. prepareChunksForRead b ?r offset fr (p, []) = Some (None, (p', allData))
      \<and> length p' = length p"
    using walk_prepare_ok [OF inb lp, of b fr "[]"] h by (simp add: prepareChunksForRead_eq)
qed

theorem read_path_in_bounds_witness:
  "0 < b_chunkSize (makeTestBlob (testFetcher sampleData1) 10 3 0)
   \<and> (0::int) \<le> 8 \<and> 8 \<le> b_size (makeTestBlob (testFetcher sampleData1) 10 3 0) \<and> ''xxxx'' \<noteq> []
   \<and> 8 + int (length ''xxxx'') + b_chunkSize (makeTestBlob (testFetcher sampleData1) 10 3 0) \<le> 2 ^ 63
   \<and> read_region 3 8 4 = Region 6 11
   \<and> walkChunks (makeTestBlob (testFetcher sampleData1) 10 3 0) (read_region 3 8 4)
        (\<lambda>reg l. (None, l @ [reg])) [] = Some (None, [Region 6 8, Region 9 9])
   \<and> chunk_in_bounds 8 4 (Region 6 8) \<and> chunk_in_bounds 8 4 (Region 9 9)
   \<and> \<not> chunk_in_bounds (- 2) 1 (Region 0 2)
   \<and> map_option fst (prepareChunksForRead (makeTestBlob (testFetcher sampleData1) 10 3 0)
        (read_region 3 8 4) 8 (testFetcher sampleData1) (''xxxx'', []))
       = Some None"
proof -
  have h: "0 < b_chunkSize (makeTestBlob (testFetcher sampleData1) 10 3 0)"
    "(0::int) \<le> 8" "8 \<le> b_size (makeTestBlob (testFetcher sampleData1) 10 3 0)" "''xxxx'' \<noteq> []"
    "8 + int (length ''xxxx'') + b_chunkSize (makeTestBlob (testFetcher sampleData1) 10 3 0) \<le> 2 ^ 63"
    by (simp_all add: makeTestBlob_def)
  have r: "read_region 3 8 4 = Region 6 11" by code_simp
  have w: "walkChunks (makeTestBlob (testFetcher sampleData1) 10 3 0) (read_region 3 8 4)
        (\<lambda>reg l. (None, l @ [reg])) [] = Some (None, [Region 6 8, Region 9 9])"
    by code_simp
  have c: "chunk_in_bounds 8 4 (Region 6 8)" "chunk_in_bounds 8 4 (Region 9 9)"
    "\<not> chunk_in_bounds (- 2) 1 (Region 0 2)"
    by code_simp+
  have cs: "b_chunkSize (makeTestBlob (testFetcher sampleData1) 10 3 0) = 3"
    by (simp add: makeTestBlob_def)
  from read_path_in_bounds [where b = "makeTestBlob (testFetcher sampleData1) 10 3 0"
      and offset = 8 and p = "''xxxx''" and fr = "testFetcher sampleData1" and fl = "[]"] h
  obtain p' allData where "prepareChunksForRead (makeTestBlob (testFetcher sampleData1) 10 3 0)
      (read_region 3 8 4) 8 (testFetcher sampleData1) (''xxxx'', []) = Some (None, (p', allData))"
    unfolding cs by auto
  then show ?thesis using h r w c by simp
qed

subsection \<open>Reads at and past the end\<close>

lemma copy_slice_nil [simp]: "copy_slice store lo hi [] = store"
  by (simp add: copy_slice_def map_nth)

















subsection \<open>Writers and the bytes they leave\<close>

lemma length_window_write [simp]: "length (window_write base len destOff cur d store) = length store"
  by (simp add: window_write_def)



lemma window_write_nil [simp]: "window_write base len destOff cur [] store = store"
  by (intro nth_equalityI) (auto simp add: window_write_def)









lemma sectionReader_short [code]:
  "sectionReader content off n =
     (let d = take n (drop off content)
      in if d = [] then [] else if int (length d) \<le> 32768 then [d] else chop 32768 d)"
proof -
  have "chop 32768 d = [d]" if "d \<noteq> []" "int (length d) \<le> 32768" for d :: "byte list"
  proof -
    have "length d \<le> 32768" using that(2) by linarith
    then show ?thesis using that(1)
      by (subst chop.simps) (simp add: chop.simps [of _ "[]"])
  qed
  moreover have "chop 32768 [] = []" by (subst chop.simps) simp
  ultimately show ?thesis by (auto simp add: sectionReader_def Let_def)
qed

subsection \<open>The chunks of a read and the true bytes\<close>













subsection \<open>The invariant of a read\<close>


lemma chunk_writer_inject [simp]:
  "chunk_writer offset len chunk cur = chunk_writer offset len chunk cur' \<longleftrightarrow> cur = cur'"
  by (simp add: chunk_writer_def)



subsection \<open>The caller that fetches\<close>









subsection \<open>The caller that waits\<close>





subsection \<open>The chunks read from the cache\<close>




subsection \<open>The bytes that ReadAt returns\<close>








end
